theory Spec2Isabelle
  imports Main "HOL-Library.Word"
begin

section \<open>The tree of nodes\<close>

text \<open>
  \<^verbatim>\<open>struct node { T value; std::shared_ptr<node> left; std::shared_ptr<node> right; }\<close>
  and \<^verbatim>\<open>using sp_node = std::shared_ptr<node>\<close>. A pointer is either \<^verbatim>\<open>nullptr\<close> or
  points to a node. In this first part every node is owned by exactly one parent slot
  (or by the root slot of one set), so a pointer is modelled by the subtree it points
  to, and an assignment through a pointer by rebuilding the path to it. The element
  type's \<^verbatim>\<open>==\<close> and \<^verbatim>\<open>!=\<close> are HOL equality. The second part of the theory keeps the
  nodes in a store of addresses, where two sets can point to the same node, and
  proves that the operations on the store agree with the ones of this part as long as
  no node is shared.
\<close>

datatype 'a sp_node = Nullptr | Node (val: 'a) (left: "'a sp_node") (right: "'a sp_node")

type_synonym 'a Compare = "'a \<Rightarrow> 'a \<Rightarrow> bool"

text \<open>\<^verbatim>\<open>sp_node _root; int _size;\<close> The comparator \<^verbatim>\<open>_cmp\<close> is a stateless function object
  fixed by the type, so it is a parameter of every operation. \<^verbatim>\<open>_size\<close> is an \<^verbatim>\<open>int\<close>;
  it is modelled unbounded (it counts nodes, and \<open>2^31\<close> nodes are not reached).\<close>

record 'a TreeSet =
  s_root :: "'a sp_node"
  s_size :: int

definition TreeSet_empty :: "'a TreeSet" where
  "TreeSet_empty = \<lparr>s_root = Nullptr, s_size = 0\<rparr>"

definition size_of :: "'a TreeSet \<Rightarrow> int" where
  "size_of s = s_size s"

subsection \<open>add, contains, merge, del\<close>

text \<open>The \<^verbatim>\<open>while (n != nullptr)\<close> loop of \<^verbatim>\<open>add\<close>, started at \<open>n\<close>. It returns the result
  of \<^verbatim>\<open>add\<close> and the subtree at \<open>n\<close> after the loop; the new leaf is attached in place.
  The \<^verbatim>\<open>assert\<close> statements of \<^verbatim>\<open>add\<close> and \<^verbatim>\<open>del\<close> are compiled out here (\<^verbatim>\<open>NDEBUG\<close>);
  \<open>add_debug\<close> and \<open>del_debug\<close> below have them.\<close>

fun add_loop :: "'a Compare \<Rightarrow> 'a \<Rightarrow> 'a sp_node \<Rightarrow> bool \<times> 'a sp_node" where
  "add_loop cmp v Nullptr = (False, Nullptr)"
| "add_loop cmp v (Node x l r) =
     (if v = x then (False, Node x l r)
      else if cmp v x then
        (if l = Nullptr then (True, Node x (Node v Nullptr Nullptr) r)
         else (case add_loop cmp v l of (b, l') \<Rightarrow> (b, Node x l' r)))
      else
        (if r = Nullptr then (True, Node x l (Node v Nullptr Nullptr))
         else (case add_loop cmp v r of (b, r') \<Rightarrow> (b, Node x l r'))))"

definition add :: "'a Compare \<Rightarrow> 'a \<Rightarrow> 'a TreeSet \<Rightarrow> bool \<times> 'a TreeSet" where
  "add cmp v s =
     (if size_of s = 0 then (True, s\<lparr>s_root := Node v Nullptr Nullptr, s_size := 1\<rparr>)
      else (case add_loop cmp v (s_root s) of
              (b, t) \<Rightarrow> (b, s\<lparr>s_root := t, s_size := (if b then s_size s + 1 else s_size s)\<rparr>)))"

fun contains_loop :: "'a Compare \<Rightarrow> 'a \<Rightarrow> 'a sp_node \<Rightarrow> bool" where
  "contains_loop cmp v Nullptr = False"
| "contains_loop cmp v (Node x l r) =
     (if v = x then True
      else if cmp v x then contains_loop cmp v l
      else contains_loop cmp v r)"

definition contains :: "'a Compare \<Rightarrow> 'a TreeSet \<Rightarrow> 'a \<Rightarrow> bool" where
  "contains cmp s v = (if size_of s = 0 then False else contains_loop cmp v (s_root s))"

text \<open>\<^verbatim>\<open>merge\<close>: with both subtrees present, walk \<^verbatim>\<open>n = big; while (n->left != nullptr) n = n->left;\<close>
  and set \<^verbatim>\<open>n->left = small\<close>. \<open>attach_leftmost\<close> is that walk; it is only called on a
  node.\<close>

fun attach_leftmost :: "'a sp_node \<Rightarrow> 'a sp_node \<Rightarrow> 'a sp_node" where
  "attach_leftmost small Nullptr = Nullptr"
| "attach_leftmost small (Node x l r) =
     (if l = Nullptr then Node x small r else Node x (attach_leftmost small l) r)"

definition merge :: "'a sp_node \<Rightarrow> 'a sp_node \<Rightarrow> 'a sp_node" where
  "merge small big =
     (if small = Nullptr then big
      else if big = Nullptr then small
      else attach_leftmost small big)"

text \<open>The loop of \<^verbatim>\<open>del\<close>. \<^verbatim>\<open>parent->replace_child(n, merged_children)\<close> overwrites the
  child slot of \<^verbatim>\<open>parent\<close> that holds \<^verbatim>\<open>n\<close>, which is the slot the walk came through;
  at the root the root slot is overwritten.\<close>

fun del_loop :: "'a Compare \<Rightarrow> 'a \<Rightarrow> 'a sp_node \<Rightarrow> bool \<times> 'a sp_node" where
  "del_loop cmp v Nullptr = (False, Nullptr)"
| "del_loop cmp v (Node x l r) =
     (if v = x then (True, merge l r)
      else if cmp v x then (case del_loop cmp v l of (b, l') \<Rightarrow> (b, Node x l' r))
      else (case del_loop cmp v r of (b, r') \<Rightarrow> (b, Node x l r')))"

definition del :: "'a Compare \<Rightarrow> 'a \<Rightarrow> 'a TreeSet \<Rightarrow> bool \<times> 'a TreeSet" where
  "del cmp v s =
     (if size_of s = 0 then (False, s)
      else (case del_loop cmp v (s_root s) of
              (b, t) \<Rightarrow> (b, s\<lparr>s_root := t, s_size := (if b then s_size s - 1 else s_size s)\<rparr>)))"

subsection \<open>The iterator\<close>

text \<open>\<^verbatim>\<open>std::stack<sp_node> _next_node_stack; sp_node _current_node;\<close> The top of the stack
  is the head of the list. The default constructor leaves the stack empty and the
  current node null; that is also \<^verbatim>\<open>end()\<close>.\<close>

record 'a TreeSetIter =
  next_node_stack :: "'a sp_node list"
  current_node :: "'a sp_node"

definition TreeSetIter_default :: "'a TreeSetIter" where
  "TreeSetIter_default = \<lparr>next_node_stack = [], current_node = Nullptr\<rparr>"

text \<open>\<^verbatim>\<open>while (n != nullptr) { _next_node_stack.push(n); n = n->left; }\<close>\<close>

fun push_left :: "'a sp_node \<Rightarrow> 'a sp_node list \<Rightarrow> 'a sp_node list" where
  "push_left Nullptr stk = stk"
| "push_left (Node x l r) stk = push_left l (Node x l r # stk)"

definition inorder_traverse_to_leftmost_node ::
    "'a sp_node \<Rightarrow> 'a TreeSetIter \<Rightarrow> 'a TreeSetIter" where
  "inorder_traverse_to_leftmost_node from_node it =
     (case push_left from_node (next_node_stack it) of
        [] \<Rightarrow> it\<lparr>next_node_stack := [], current_node := Nullptr\<rparr>
      | n # rest \<Rightarrow> it\<lparr>next_node_stack := rest, current_node := n\<rparr>)"

definition TreeSetIter_at :: "'a sp_node \<Rightarrow> 'a TreeSetIter" where
  "TreeSetIter_at root_node = inorder_traverse_to_leftmost_node root_node TreeSetIter_default"

definition begin_it :: "'a TreeSet \<Rightarrow> 'a TreeSetIter" where
  "begin_it s = TreeSetIter_at (s_root s)"

definition end_it :: "'a TreeSetIter" where
  "end_it = TreeSetIter_default"

text \<open>\<^verbatim>\<open>operator++()\<close>; the post-increment \<^verbatim>\<open>it++\<close> returns the iterator as it was and
  advances it the same way.\<close>

definition incr :: "'a TreeSetIter \<Rightarrow> 'a TreeSetIter" where
  "incr it =
     (if current_node it \<noteq> Nullptr
      then inorder_traverse_to_leftmost_node (right (current_node it)) it
      else it)"

text \<open>\<^verbatim>\<open>operator*()\<close> reads \<^verbatim>\<open>_current_node->value\<close>. The source has no check; every
  loop below reads it only after \<^verbatim>\<open>it != end()\<close>.\<close>

definition deref :: "'a TreeSetIter \<Rightarrow> 'a" where
  "deref it = val (current_node it)"

text \<open>\<^verbatim>\<open>operator==\<close> of iterators compares the two node pointers. Against \<^verbatim>\<open>end()\<close>,
  whose pointer is null, that is the test below.\<close>

definition at_end :: "'a TreeSetIter \<Rightarrow> bool" where
  "at_end it = (current_node it = Nullptr)"

text \<open>The number of elements an iterator has still to yield: the current node and its
  right subtree, and the same for every node waiting on the stack. It is the measure
  under which every loop over an iterator ends.\<close>

fun node_count :: "'a sp_node \<Rightarrow> nat" where
  "node_count Nullptr = 0"
| "node_count (Node x l r) = Suc (node_count l + node_count r)"

fun pending :: "'a sp_node \<Rightarrow> nat" where
  "pending Nullptr = 0"
| "pending (Node x l r) = Suc (node_count r)"

definition remaining :: "'a TreeSetIter \<Rightarrow> nat" where
  "remaining it = pending (current_node it) + sum_list (map pending (next_node_stack it))"

lemma pending_push_left:
  "sum_list (map pending (push_left n stk)) = node_count n + sum_list (map pending stk)"
  by (induction n stk rule: push_left.induct) simp_all

lemma remaining_traverse:
  "remaining (inorder_traverse_to_leftmost_node n it)
     = node_count n + sum_list (map pending (next_node_stack it))"
proof -
  have "sum_list (map pending (push_left n (next_node_stack it)))
          = node_count n + sum_list (map pending (next_node_stack it))"
    by (rule pending_push_left)
  then show ?thesis
    by (cases "push_left n (next_node_stack it)")
       (simp_all add: inorder_traverse_to_leftmost_node_def remaining_def)
qed

lemma remaining_incr:
  assumes "\<not> at_end it"
  shows "remaining (incr it) < remaining it"
proof (cases "current_node it")
  case Nullptr
  with assms show ?thesis by (simp add: at_end_def)
next
  case (Node x l r)
  have "remaining (incr it) = node_count r + sum_list (map pending (next_node_stack it))"
    by (simp add: incr_def Node remaining_traverse)
  moreover have "remaining it = Suc (node_count r) + sum_list (map pending (next_node_stack it))"
    by (simp add: remaining_def Node)
  ultimately show ?thesis by simp
qed

text \<open>A full traversal: \<^verbatim>\<open>for (auto it = begin(); it != end(); it++)\<close>, yielding \<^verbatim>\<open>*it\<close>.\<close>

function traverse :: "'a TreeSetIter \<Rightarrow> 'a list" where
  "traverse it = (if \<not> at_end it then deref it # traverse (incr it) else [])"
  by pat_completeness auto
termination
  by (relation "measure remaining") (simp_all add: remaining_incr)

definition elements :: "'a TreeSet \<Rightarrow> 'a list" where
  "elements s = traverse (begin_it s)"

declare traverse.simps [simp del]

subsection \<open>Construction from a list, equality, set algebra, output\<close>

text \<open>\<^verbatim>\<open>TreeSet(const std::initializer_list<T> &list)\<close>: \<^verbatim>\<open>for (T item : list) add(item);\<close>\<close>

definition TreeSet_of_list :: "'a Compare \<Rightarrow> 'a list \<Rightarrow> 'a TreeSet" where
  "TreeSet_of_list cmp list = foldl (\<lambda>s item. snd (add cmp item s)) TreeSet_empty list"

text \<open>\<^verbatim>\<open>operator==\<close>: the loop runs while neither iterator is at the end and returns false
  at the first pair of different values. After the loop one of the two node pointers is
  null, so the final \<^verbatim>\<open>this_it == rhs_it\<close> holds exactly when both are.\<close>

function equal_loop :: "'a TreeSetIter \<Rightarrow> 'a TreeSetIter \<Rightarrow> bool" where
  "equal_loop this_it rhs_it =
     (if \<not> at_end this_it \<and> \<not> at_end rhs_it
      then (if deref this_it \<noteq> deref rhs_it then False
            else equal_loop (incr this_it) (incr rhs_it))
      else at_end this_it \<and> at_end rhs_it)"
  by pat_completeness auto
termination
  by (relation "measure (\<lambda>(a, b). remaining a)") (simp_all add: remaining_incr)

declare equal_loop.simps [simp del]

definition equal_set :: "'a TreeSet \<Rightarrow> 'a TreeSet \<Rightarrow> bool" where
  "equal_set s rhs = equal_loop (begin_it s) (begin_it rhs)"

text \<open>\<^verbatim>\<open>plus\<close>: two loops \<^verbatim>\<open>for (it = x.begin(); it != x.end(); it++) new_set.add(*it);\<close>\<close>

function add_each :: "'a Compare \<Rightarrow> 'a TreeSetIter \<Rightarrow> 'a TreeSet \<Rightarrow> 'a TreeSet" where
  "add_each cmp it new_set =
     (if \<not> at_end it then add_each cmp (incr it) (snd (add cmp (deref it) new_set))
      else new_set)"
  by pat_completeness auto
termination
  by (relation "measure (\<lambda>(cmp, it, new_set). remaining it)") (simp_all add: remaining_incr)

declare add_each.simps [simp del]

definition plus_set :: "'a Compare \<Rightarrow> 'a TreeSet \<Rightarrow> 'a TreeSet \<Rightarrow> 'a TreeSet" where
  "plus_set cmp this s = add_each cmp (begin_it s) (add_each cmp (begin_it this) TreeSet_empty)"

text \<open>\<^verbatim>\<open>intersect\<close>: for every element of this set, the inner loop runs over all of \<open>s\<close>
  and adds the element whenever \<^verbatim>\<open>*this_it == *s_it\<close>.\<close>

function intersect_inner ::
    "'a Compare \<Rightarrow> 'a \<Rightarrow> 'a TreeSetIter \<Rightarrow> 'a TreeSet \<Rightarrow> 'a TreeSet" where
  "intersect_inner cmp x s_it new_set =
     (if \<not> at_end s_it
      then intersect_inner cmp x (incr s_it)
             (if x = deref s_it then snd (add cmp x new_set) else new_set)
      else new_set)"
  by pat_completeness auto
termination
  by (relation "measure (\<lambda>(cmp, x, s_it, new_set). remaining s_it)")
     (simp_all add: remaining_incr)

declare intersect_inner.simps [simp del]

function intersect_outer ::
    "'a Compare \<Rightarrow> 'a TreeSetIter \<Rightarrow> 'a TreeSet \<Rightarrow> 'a TreeSet \<Rightarrow> 'a TreeSet" where
  "intersect_outer cmp this_it s new_set =
     (if \<not> at_end this_it
      then intersect_outer cmp (incr this_it) s
             (intersect_inner cmp (deref this_it) (begin_it s) new_set)
      else new_set)"
  by pat_completeness auto
termination
  by (relation "measure (\<lambda>(cmp, this_it, s, new_set). remaining this_it)")
     (simp_all add: remaining_incr)

declare intersect_outer.simps [simp del]

definition intersect :: "'a Compare \<Rightarrow> 'a TreeSet \<Rightarrow> 'a TreeSet \<Rightarrow> 'a TreeSet" where
  "intersect cmp this s = intersect_outer cmp (begin_it this) s TreeSet_empty"

text \<open>\<^verbatim>\<open>minus\<close>: \<^verbatim>\<open>if (!s.contains(*this_it)) new_set.add(*this_it);\<close>\<close>

function minus_loop ::
    "'a Compare \<Rightarrow> 'a TreeSetIter \<Rightarrow> 'a TreeSet \<Rightarrow> 'a TreeSet \<Rightarrow> 'a TreeSet" where
  "minus_loop cmp this_it s new_set =
     (if \<not> at_end this_it
      then minus_loop cmp (incr this_it) s
             (if \<not> contains cmp s (deref this_it)
              then snd (add cmp (deref this_it) new_set) else new_set)
      else new_set)"
  by pat_completeness auto
termination
  by (relation "measure (\<lambda>(cmp, this_it, s, new_set). remaining this_it)")
     (simp_all add: remaining_incr)

declare minus_loop.simps [simp del]

definition minus_set :: "'a Compare \<Rightarrow> 'a TreeSet \<Rightarrow> 'a TreeSet \<Rightarrow> 'a TreeSet" where
  "minus_set cmp this s = minus_loop cmp (begin_it this) s TreeSet_empty"

text \<open>The stream-output operator. The stream is the text written so far; \<open>put\<close> is the
  element type's own \<^verbatim>\<open>operator<<\<close>, the text it writes for one value.
  \<^verbatim>\<open>while (it != s.end()) { os << *it++; if (it != s.end()) os << ","; }\<close>\<close>

function output_loop :: "('a \<Rightarrow> string) \<Rightarrow> 'a TreeSetIter \<Rightarrow> string \<Rightarrow> string" where
  "output_loop put it os =
     (if \<not> at_end it
      then (let os1 = os @ put (deref it);
                it1 = incr it;
                os2 = (if \<not> at_end it1 then os1 @ '','' else os1)
            in output_loop put it1 os2)
      else os)"
  by pat_completeness auto
termination
  by (relation "measure (\<lambda>(put, it, os). remaining it)") (simp_all add: remaining_incr)

declare output_loop.simps [simp del]

definition stream_out :: "('a \<Rightarrow> string) \<Rightarrow> string \<Rightarrow> 'a TreeSet \<Rightarrow> string" where
  "stream_out put os s = output_loop put (begin_it s) (os @ ''['') @ '']''"

text \<open>How a stream writes an \<^verbatim>\<open>int\<close>: decimal digits, with a minus sign when negative.\<close>

function put_nat :: "nat \<Rightarrow> string" where
  "put_nat n =
     (if n < 10 then [''0123456789'' ! n]
      else put_nat (n div 10) @ [''0123456789'' ! (n mod 10)])"
  by pat_completeness auto
termination
  by (relation "measure id") simp_all

declare put_nat.simps [simp del]

definition put_int :: "int \<Rightarrow> string" where
  "put_int i = (if i < 0 then CHR ''-'' # put_nat (nat (- i)) else put_nat (nat i))"

subsection \<open>The sanity check of debug builds\<close>

text \<open>\<^verbatim>\<open>sanity_check(n, minval, maxval)\<close>. At a node it writes a line to \<^verbatim>\<open>cerr\<close> when
  \<^verbatim>\<open>_cmp(n->value, minval) || _cmp(maxval, n->value)\<close>, and in either case returns the
  conjunction of the two recursive calls; at a null pointer it returns
  \<^verbatim>\<open>_cmp(minval, maxval)\<close>. \<open>sanity_check_range\<close> is the value returned and
  \<open>sanity_check_cerr\<close> the values of the nodes reported, in the order written
  (\<^verbatim>\<open>&&\<close> does not evaluate its right operand when the left one is false).\<close>

fun sanity_check_range :: "'a Compare \<Rightarrow> 'a sp_node \<Rightarrow> 'a \<Rightarrow> 'a \<Rightarrow> bool" where
  "sanity_check_range cmp Nullptr minval maxval = cmp minval maxval"
| "sanity_check_range cmp (Node x l r) minval maxval =
     (sanity_check_range cmp l minval x \<and> sanity_check_range cmp r x maxval)"

fun sanity_check_cerr :: "'a Compare \<Rightarrow> 'a sp_node \<Rightarrow> 'a \<Rightarrow> 'a \<Rightarrow> 'a list" where
  "sanity_check_cerr cmp Nullptr minval maxval = []"
| "sanity_check_cerr cmp (Node x l r) minval maxval =
     (if cmp x minval \<or> cmp maxval x then [x] else [])
     @ sanity_check_cerr cmp l minval x
     @ (if sanity_check_range cmp l minval x then sanity_check_cerr cmp r x maxval else [])"

text \<open>\<^verbatim>\<open>sanity_check(n)\<close>. \<open>limits\<close> is \<open>Some (min, max)\<close> with
  \<^verbatim>\<open>std::numeric_limits<T>::min()\<close> and \<^verbatim>\<open>max()\<close> when \<^verbatim>\<open>is_specialized\<close>, and \<open>None\<close>
  for any other element type.\<close>

definition sanity_check :: "('a \<times> 'a) option \<Rightarrow> 'a Compare \<Rightarrow> 'a sp_node \<Rightarrow> bool" where
  "sanity_check limits cmp n =
     (case limits of
        Some (lo, hi) \<Rightarrow>
          (if \<not> cmp lo hi then sanity_check_range cmp n hi lo
           else sanity_check_range cmp n lo hi)
      | None \<Rightarrow> True)"

text \<open>\<^verbatim>\<open>add\<close> and \<^verbatim>\<open>del\<close> as compiled without \<^verbatim>\<open>NDEBUG\<close>: a failed \<^verbatim>\<open>assert\<close> aborts the
  program. The definitions \<open>add\<close> and \<open>del\<close> above are the same functions with the
  assertions compiled out. The assertion before the final \<^verbatim>\<open>return false\<close> of either
  function is reached with the tree unchanged, where it repeats the first one.\<close>

datatype abort = Assertion_failed

definition add_debug ::
    "('a \<times> 'a) option \<Rightarrow> 'a Compare \<Rightarrow> 'a \<Rightarrow> 'a TreeSet \<Rightarrow> abort + bool \<times> 'a TreeSet" where
  "add_debug limits cmp v s =
     (if \<not> sanity_check limits cmp (s_root s) then Inl Assertion_failed
      else if size_of s = 0 then
        (let s1 = s\<lparr>s_root := Node v Nullptr Nullptr, s_size := 1\<rparr>
         in if \<not> sanity_check limits cmp (s_root s1) then Inl Assertion_failed
            else Inr (True, s1))
      else Inr (add cmp v s))"

definition del_debug ::
    "('a \<times> 'a) option \<Rightarrow> 'a Compare \<Rightarrow> 'a \<Rightarrow> 'a TreeSet \<Rightarrow> abort + bool \<times> 'a TreeSet" where
  "del_debug limits cmp v s =
     (if \<not> sanity_check limits cmp (s_root s) then Inl Assertion_failed
      else Inr (del cmp v s))"

text \<open>\<^verbatim>\<open>TreeSet<int>\<close>: a 32-bit two's complement \<^verbatim>\<open>int\<close>, \<^verbatim>\<open>std::less<int>\<close> and the
  limits \<^verbatim>\<open>INT_MIN\<close>, \<^verbatim>\<open>INT_MAX\<close>.\<close>

definition int_less :: "32 word Compare" where
  "int_less a b = (sint a < sint b)"

definition INT_MIN :: "32 word" where
  "INT_MIN = word_of_int (- 2147483648)"

definition INT_MAX :: "32 word" where
  "INT_MAX = word_of_int 2147483647"

definition int_limits :: "(32 word \<times> 32 word) option" where
  "int_limits = Some (INT_MIN, INT_MAX)"

section \<open>Sets that can share nodes: nodes in a store\<close>

text \<open>
  The move constructor and the move-assignment operator copy the \<^verbatim>\<open>shared_ptr\<close> of the
  root, so afterwards two \<^verbatim>\<open>TreeSet\<close> objects point to the same nodes; the assignment
  operators compare \<^verbatim>\<open>this\<close> with \<^verbatim>\<open>&other\<close>. For these the state is explicit: a store
  maps addresses to nodes, \<^verbatim>\<open>std::make_shared\<close> takes the next unused address, and every
  \<^verbatim>\<open>TreeSet\<close> object has an identity (a number standing for its own address). A
  \<^verbatim>\<open>shared_ptr\<close> frees a node when its last owner lets go; the store keeps such nodes,
  which nothing reaches any more. A result \<open>None\<close> stands for a walk that does not end
  (a cycle of nodes) or that meets an address without a node. Neither arises while every
  object owns its nodes alone. Two objects that share nodes after a move can build a
  cycle: with \<open>a\<close> holding 2, 1, 3 and \<open>b\<close> moved from \<open>a\<close>, \<^verbatim>\<open>a.del(2)\<close> hangs the node of
  1 below the node of 3, and \<^verbatim>\<open>b.del(2)\<close> then makes the node of 1 its own left child.
\<close>

type_synonym addr = nat

record 'a node =
  n_value :: 'a
  n_left :: "addr option"
  n_right :: "addr option"

record tree_set =
  o_root :: "addr option"
  o_size :: int

record 'a store =
  nodes :: "addr \<Rightarrow> 'a node option"
  next_addr :: addr
  sets :: "nat \<Rightarrow> tree_set"

definition empty_store :: "'a store" where
  "empty_store = \<lparr>nodes = (\<lambda>a. None), next_addr = 0,
                   sets = (\<lambda>this. \<lparr>o_root = None, o_size = 0\<rparr>)\<rparr>"

text \<open>\<^verbatim>\<open>std::make_shared<node>(value)\<close>\<close>

definition make_node :: "'a \<Rightarrow> 'a store \<Rightarrow> addr \<times> 'a store" where
  "make_node v st =
     (next_addr st,
      st\<lparr>nodes := (nodes st)(next_addr st \<mapsto> \<lparr>n_value = v, n_left = None, n_right = None\<rparr>),
         next_addr := Suc (next_addr st)\<rparr>)"

text \<open>\<^verbatim>\<open>TreeSet() : _root(nullptr), _size(0)\<close> for the object \<open>this\<close>.\<close>

definition TreeSet_st :: "nat \<Rightarrow> 'a store \<Rightarrow> 'a store" where
  "TreeSet_st this st = st\<lparr>sets := (sets st)(this := \<lparr>o_root = None, o_size = 0\<rparr>)\<rparr>"

text \<open>The loop of \<^verbatim>\<open>add\<close> on the store, and \<^verbatim>\<open>add\<close> itself.\<close>

partial_function (option) add_walk ::
    "'a Compare \<Rightarrow> 'a \<Rightarrow> addr option \<Rightarrow> 'a store \<Rightarrow> (bool \<times> 'a store) option" where
  "add_walk cmp v n st =
     (case n of
        None \<Rightarrow> Some (False, st)
      | Some a \<Rightarrow>
          (case nodes st a of
             None \<Rightarrow> None
           | Some nd \<Rightarrow>
               if v = n_value nd then Some (False, st)
               else if cmp v (n_value nd) then
                 (case n_left nd of
                    None \<Rightarrow>
                      (case make_node v st of
                         (p, st1) \<Rightarrow>
                           Some (True, st1\<lparr>nodes := (nodes st1)(a \<mapsto> nd\<lparr>n_left := Some p\<rparr>)\<rparr>))
                  | Some l \<Rightarrow> add_walk cmp v (Some l) st)
               else
                 (case n_right nd of
                    None \<Rightarrow>
                      (case make_node v st of
                         (p, st1) \<Rightarrow>
                           Some (True, st1\<lparr>nodes := (nodes st1)(a \<mapsto> nd\<lparr>n_right := Some p\<rparr>)\<rparr>))
                  | Some r \<Rightarrow> add_walk cmp v (Some r) st)))"

definition add_st :: "'a Compare \<Rightarrow> nat \<Rightarrow> 'a \<Rightarrow> 'a store \<Rightarrow> (bool \<times> 'a store) option" where
  "add_st cmp this v st =
     (if o_size (sets st this) = 0 then
        (case make_node v st of
           (p, st1) \<Rightarrow> Some (True, st1\<lparr>sets := (sets st1)(this := \<lparr>o_root = Some p, o_size = 1\<rparr>)\<rparr>))
      else
        (case add_walk cmp v (o_root (sets st this)) st of
           None \<Rightarrow> None
         | Some (b, st1) \<Rightarrow>
             Some (b, if b then st1\<lparr>sets := (sets st1)
                               (this := (sets st1 this)\<lparr>o_size := o_size (sets st1 this) + 1\<rparr>)\<rparr>
                      else st1)))"

text \<open>The loop of \<^verbatim>\<open>contains\<close>, \<^verbatim>\<open>merge\<close> with its walk to the leftmost node of \<open>big\<close>,
  \<^verbatim>\<open>node::replace_child\<close>, and \<^verbatim>\<open>del\<close> with its loop over \<open>n\<close> and \<open>parent\<close>, on the store.\<close>

partial_function (option) contains_walk ::
    "'a Compare \<Rightarrow> 'a \<Rightarrow> addr option \<Rightarrow> (addr \<Rightarrow> 'a node option) \<Rightarrow> bool option" where
  "contains_walk cmp v n h =
     (case n of
        None \<Rightarrow> Some False
      | Some a \<Rightarrow>
          (case h a of
             None \<Rightarrow> None
           | Some nd \<Rightarrow>
               if v = n_value nd then Some True
               else if cmp v (n_value nd) then contains_walk cmp v (n_left nd) h
               else contains_walk cmp v (n_right nd) h))"

definition contains_st :: "'a Compare \<Rightarrow> nat \<Rightarrow> 'a \<Rightarrow> 'a store \<Rightarrow> bool option" where
  "contains_st cmp this v st =
     (if o_size (sets st this) = 0 then Some False
      else contains_walk cmp v (o_root (sets st this)) (nodes st))"

partial_function (option) leftmost_addr :: "(addr \<Rightarrow> 'a node option) \<Rightarrow> addr \<Rightarrow> addr option" where
  "leftmost_addr h n =
     (case h n of
        None \<Rightarrow> None
      | Some nd \<Rightarrow> (case n_left nd of None \<Rightarrow> Some n | Some l \<Rightarrow> leftmost_addr h l))"

definition merge_st ::
    "addr option \<Rightarrow> addr option \<Rightarrow> 'a store \<Rightarrow> (addr option \<times> 'a store) option" where
  "merge_st small big st =
     (case small of
        None \<Rightarrow> Some (big, st)
      | Some s \<Rightarrow>
          (case big of
             None \<Rightarrow> Some (small, st)
           | Some b \<Rightarrow>
               (case leftmost_addr (nodes st) b of
                  None \<Rightarrow> None
                | Some n \<Rightarrow>
                    (case nodes st n of
                       None \<Rightarrow> None
                     | Some nd \<Rightarrow>
                         Some (big, st\<lparr>nodes := (nodes st)(n \<mapsto> nd\<lparr>n_left := small\<rparr>)\<rparr>)))))"

definition replace_child ::
    "addr \<Rightarrow> addr option \<Rightarrow> addr option \<Rightarrow> 'a store \<Rightarrow> 'a store option" where
  "replace_child parent old_child new_child st =
     (case nodes st parent of
        None \<Rightarrow> None
      | Some nd \<Rightarrow>
          Some (st\<lparr>nodes := (nodes st)
                  (parent \<mapsto> (if n_left nd = old_child then nd\<lparr>n_left := new_child\<rparr>
                                else nd\<lparr>n_right := new_child\<rparr>))\<rparr>))"

definition decrement_size :: "nat \<Rightarrow> 'a store \<Rightarrow> 'a store" where
  "decrement_size this st =
     st\<lparr>sets := (sets st)(this := (sets st this)\<lparr>o_size := o_size (sets st this) - 1\<rparr>)\<rparr>"

definition set_root :: "nat \<Rightarrow> addr option \<Rightarrow> 'a store \<Rightarrow> 'a store" where
  "set_root this p st = st\<lparr>sets := (sets st)(this := (sets st this)\<lparr>o_root := p\<rparr>)\<rparr>"

partial_function (option) del_walk ::
    "'a Compare \<Rightarrow> 'a \<Rightarrow> nat \<Rightarrow> addr option \<Rightarrow> addr option \<Rightarrow> 'a store
      \<Rightarrow> (bool \<times> 'a store) option" where
  "del_walk cmp v this n parent st =
     (case n of
        None \<Rightarrow> Some (False, st)
      | Some a \<Rightarrow>
          (case nodes st a of
             None \<Rightarrow> None
           | Some nd \<Rightarrow>
               if v = n_value nd then
                 (case merge_st (n_left nd) (n_right nd) st of
                    None \<Rightarrow> None
                  | Some (merged, st1) \<Rightarrow>
                      (case parent of
                         None \<Rightarrow> Some (True, decrement_size this (set_root this merged st1))
                       | Some pa \<Rightarrow>
                           (case replace_child pa (Some a) merged st1 of
                              None \<Rightarrow> None
                            | Some st2 \<Rightarrow> Some (True, decrement_size this st2))))
               else if cmp v (n_value nd) then del_walk cmp v this (n_left nd) (Some a) st
               else del_walk cmp v this (n_right nd) (Some a) st))"

definition del_st :: "'a Compare \<Rightarrow> nat \<Rightarrow> 'a \<Rightarrow> 'a store \<Rightarrow> (bool \<times> 'a store) option" where
  "del_st cmp this v st =
     (if o_size (sets st this) = 0 then Some (False, st)
      else del_walk cmp v this (o_root (sets st this)) None st)"

text \<open>The iterator on the store: a stack of addresses and the current address. It only
  reads nodes.\<close>

record iter_st =
  i_stack :: "addr list"
  i_current :: "addr option"

partial_function (option) push_left_st ::
    "(addr \<Rightarrow> 'a node option) \<Rightarrow> addr option \<Rightarrow> addr list \<Rightarrow> addr list option" where
  "push_left_st h n stk =
     (case n of
        None \<Rightarrow> Some stk
      | Some a \<Rightarrow>
          (case h a of
             None \<Rightarrow> None
           | Some nd \<Rightarrow> push_left_st h (n_left nd) (a # stk)))"

definition leftmost_st ::
    "(addr \<Rightarrow> 'a node option) \<Rightarrow> addr option \<Rightarrow> iter_st \<Rightarrow> iter_st option" where
  "leftmost_st h from_node it =
     (case push_left_st h from_node (i_stack it) of
        None \<Rightarrow> None
      | Some [] \<Rightarrow> Some (it\<lparr>i_stack := [], i_current := None\<rparr>)
      | Some (a # rest) \<Rightarrow> Some (it\<lparr>i_stack := rest, i_current := Some a\<rparr>))"

definition incr_st :: "(addr \<Rightarrow> 'a node option) \<Rightarrow> iter_st \<Rightarrow> iter_st option" where
  "incr_st h it =
     (case i_current it of
        None \<Rightarrow> Some it
      | Some a \<Rightarrow>
          (case h a of
             None \<Rightarrow> None
           | Some nd \<Rightarrow> leftmost_st h (n_right nd) it))"

text \<open>A full traversal \<^verbatim>\<open>for (it = begin(); it != end(); it++)\<close>, yielding \<^verbatim>\<open>*it\<close>.\<close>

partial_function (option) traverse_st ::
    "(addr \<Rightarrow> 'a node option) \<Rightarrow> iter_st \<Rightarrow> 'a list option" where
  "traverse_st h it =
     (case i_current it of
        None \<Rightarrow> Some []
      | Some a \<Rightarrow>
          (case h a of
             None \<Rightarrow> None
           | Some nd \<Rightarrow>
               Option.bind (incr_st h it)
                 (\<lambda>it1. Option.bind (traverse_st h it1) (\<lambda>vs. Some (n_value nd # vs)))))"

definition elements_from :: "(addr \<Rightarrow> 'a node option) \<Rightarrow> addr option \<Rightarrow> 'a list option" where
  "elements_from h root_node =
     Option.bind (leftmost_st h root_node \<lparr>i_stack = [], i_current = None\<rparr>) (traverse_st h)"

definition elements_st :: "'a store \<Rightarrow> nat \<Rightarrow> 'a list option" where
  "elements_st st this = elements_from (nodes st) (o_root (sets st this))"

text \<open>\<^verbatim>\<open>TreeSet(TreeSet &&other) : _root(other._root), _size(other._size) { }\<close> constructs
  the object \<open>this\<close>. Nothing is written to \<open>other\<close>.\<close>

definition move_construct :: "nat \<Rightarrow> nat \<Rightarrow> 'a store \<Rightarrow> 'a store" where
  "move_construct this other st =
     st\<lparr>sets := (sets st)(this := \<lparr>o_root = o_root (sets st other),
                                  o_size = o_size (sets st other)\<rparr>)\<rparr>"

text \<open>\<^verbatim>\<open>operator=(TreeSet &&other)\<close>\<close>

definition move_assign :: "nat \<Rightarrow> nat \<Rightarrow> 'a store \<Rightarrow> 'a store" where
  "move_assign this other st =
     (if this = other then st
      else st\<lparr>sets := (sets st)
             (this := \<lparr>o_root = (if o_size (sets st other) > 0 then o_root (sets st other) else None),
                       o_size = o_size (sets st other)\<rparr>)\<rparr>)"

text \<open>\<^verbatim>\<open>std::make_shared<node>(other)\<close> with the copying constructor
  \<^verbatim>\<open>node(const sp_node &other)\<close>: the new node starts with null children and a value
  that the constructor does not set (\<open>dflt\<close>); for a null \<open>other\<close> that is all; otherwise
  the value is copied and each child that is present is copied the same way.\<close>

partial_function (option) copy_node ::
    "'a \<Rightarrow> addr option \<Rightarrow> 'a store \<Rightarrow> (addr \<times> 'a store) option" where
  "copy_node dflt other st =
     (case make_node dflt st of
        (p, st0) \<Rightarrow>
          (case other of
             None \<Rightarrow> Some (p, st0)
           | Some a \<Rightarrow>
               (case nodes st0 a of
                  None \<Rightarrow> None
                | Some nd \<Rightarrow>
                    Option.bind
                      (case n_left nd of
                         None \<Rightarrow> Some (None, st0)
                       | Some l \<Rightarrow>
                           Option.bind (copy_node dflt (Some l) st0)
                             (\<lambda>(q, st1). Some (Some q, st1)))
                      (\<lambda>(lp, st1).
                         Option.bind
                           (case n_right nd of
                              None \<Rightarrow> Some (None, st1)
                            | Some r \<Rightarrow>
                                Option.bind (copy_node dflt (Some r) st1)
                                  (\<lambda>(q, st2). Some (Some q, st2)))
                           (\<lambda>(rp, st2).
                              Some (p, st2\<lparr>nodes := (nodes st2)
                                       (p \<mapsto> \<lparr>n_value = n_value nd, n_left = lp, n_right = rp\<rparr>)\<rparr>))))))"

text \<open>The body shared by the copy constructor and the copy-assignment operator:
  \<^verbatim>\<open>_size = other._size; if (other.size() > 0) _root = std::make_shared<node>(other._root);
  else _root = nullptr;\<close>\<close>

definition copy_from :: "'a \<Rightarrow> nat \<Rightarrow> nat \<Rightarrow> 'a store \<Rightarrow> 'a store option" where
  "copy_from dflt this other st =
     (if o_size (sets st other) > 0 then
        Option.bind (copy_node dflt (o_root (sets st other)) st)
          (\<lambda>(p, st1). Some (st1\<lparr>sets := (sets st1)
                              (this := \<lparr>o_root = Some p, o_size = o_size (sets st other)\<rparr>)\<rparr>))
      else Some (st\<lparr>sets := (sets st)
                     (this := \<lparr>o_root = None, o_size = o_size (sets st other)\<rparr>)\<rparr>))"

definition copy_construct :: "'a \<Rightarrow> nat \<Rightarrow> nat \<Rightarrow> 'a store \<Rightarrow> 'a store option" where
  "copy_construct dflt this other st = copy_from dflt this other st"

text \<open>\<^verbatim>\<open>operator=(const TreeSet &other)\<close>: \<^verbatim>\<open>if (this == &other) return *this;\<close> first.\<close>

definition copy_assign :: "'a \<Rightarrow> nat \<Rightarrow> nat \<Rightarrow> 'a store \<Rightarrow> 'a store option" where
  "copy_assign dflt this other st =
     (if this = other then Some st else copy_from dflt this other st)"

text \<open>The store after \<^verbatim>\<open>TreeSet<int> a; a.add(1);\<close> in an empty store, with \<open>a\<close> as
  object 0: one node at address 0.\<close>

definition store_a1 :: "int store" where
  "store_a1 =
     \<lparr>nodes = (\<lambda>a. None)(0 \<mapsto> \<lparr>n_value = 1, n_left = None, n_right = None\<rparr>),
      next_addr = 1,
      sets = (\<lambda>this. \<lparr>o_root = None, o_size = 0\<rparr>)(0 := \<lparr>o_root = Some 0, o_size = 1\<rparr>)\<rparr>"

section \<open>Vocabulary of the properties\<close>

text \<open>The in-order sequence of a tree: left subtree, node, right subtree.\<close>

fun inorder :: "'a sp_node \<Rightarrow> 'a list" where
  "inorder Nullptr = []"
| "inorder (Node x l r) = inorder l @ x # inorder r"

text \<open>What an iterator yields for a node it holds: the node, then its right subtree.\<close>

fun rest_of :: "'a sp_node \<Rightarrow> 'a list" where
  "rest_of Nullptr = []"
| "rest_of (Node x l r) = x # inorder r"

text \<open>The states of an iterator that its own operations produce: only nodes are on the
  stack, and the stack is empty once the current node is null.\<close>

definition iter_ok :: "'a TreeSetIter \<Rightarrow> bool" where
  "iter_ok it = (Nullptr \<notin> set (next_node_stack it) \<and>
                 (current_node it = Nullptr \<longrightarrow> next_node_stack it = []))"

text \<open>A comparator as C++ requires it of \<^verbatim>\<open>Compare\<close>: irreflexive, transitive, and with
  a transitive incomparability. A strict total order also orders any two different
  values; \<^verbatim>\<open>std::less\<close> and \<^verbatim>\<open>std::greater\<close> on integers and on strings are of this kind.\<close>

definition strict_weak_order :: "'a Compare \<Rightarrow> bool" where
  "strict_weak_order cmp =
     ((\<forall>a. \<not> cmp a a) \<and>
      (\<forall>a b c. cmp a b \<and> cmp b c \<longrightarrow> cmp a c) \<and>
      (\<forall>a b c. \<not> cmp a b \<and> \<not> cmp b a \<and> \<not> cmp b c \<and> \<not> cmp c b \<longrightarrow> \<not> cmp a c \<and> \<not> cmp c a))"

definition strict_total_order :: "'a Compare \<Rightarrow> bool" where
  "strict_total_order cmp =
     (strict_weak_order cmp \<and> (\<forall>a b. a \<noteq> b \<longrightarrow> cmp a b \<or> cmp b a))"

text \<open>The invariant the loops of \<^verbatim>\<open>add\<close>, \<^verbatim>\<open>contains\<close> and \<^verbatim>\<open>del\<close> rely on. They stop at
  a node whose value is \<^verbatim>\<open>==\<close> to the one looked for, go left when \<^verbatim>\<open>_cmp(value, n->value)\<close>
  and right otherwise; so a left subtree holds other values that the comparator puts
  before the node's, and a right subtree other values that it does not.\<close>

fun search_tree :: "'a Compare \<Rightarrow> 'a sp_node \<Rightarrow> bool" where
  "search_tree cmp Nullptr = True"
| "search_tree cmp (Node x l r) =
     (search_tree cmp l \<and> search_tree cmp r \<and>
      (\<forall>y \<in> set (inorder l). y \<noteq> x \<and> cmp y x) \<and>
      (\<forall>y \<in> set (inorder r). y \<noteq> x \<and> \<not> cmp y x))"

definition counted :: "'a TreeSet \<Rightarrow> bool" where
  "counted s = (s_size s = int (node_count (s_root s)))"

definition well_formed :: "'a Compare \<Rightarrow> 'a TreeSet \<Rightarrow> bool" where
  "well_formed cmp s = (search_tree cmp (s_root s) \<and> s_size s = int (node_count (s_root s)))"

text \<open>A sequence of \<^verbatim>\<open>add\<close> and \<^verbatim>\<open>del\<close> calls on a set that starts empty. Quantifying
  over all sequences covers the set after every call of every sequence.\<close>

datatype 'a operation = Add 'a | Del 'a

fun apply_op :: "'a Compare \<Rightarrow> 'a operation \<Rightarrow> 'a TreeSet \<Rightarrow> bool \<times> 'a TreeSet" where
  "apply_op cmp (Add v) s = add cmp v s"
| "apply_op cmp (Del v) s = del cmp v s"

definition run :: "'a Compare \<Rightarrow> 'a operation list \<Rightarrow> 'a TreeSet" where
  "run cmp ops = foldl (\<lambda>s op. snd (apply_op cmp op s)) TreeSet_empty ops"

definition add_list :: "'a Compare \<Rightarrow> 'a TreeSet \<Rightarrow> 'a list \<Rightarrow> 'a TreeSet" where
  "add_list cmp s xs = foldl (\<lambda>s x. snd (add cmp x s)) s xs"

text \<open>What \<^verbatim>\<open>add\<close> does to the in-order sequence: the scan stops at the first element
  that is equal to the value or that the value comes before.\<close>

fun ins :: "'a Compare \<Rightarrow> 'a \<Rightarrow> 'a list \<Rightarrow> 'a list" where
  "ins cmp v [] = [v]"
| "ins cmp v (a # xs) =
     (if v = a then a # xs else if cmp v a then v # a # xs else a # ins cmp v xs)"

abbreviation weakly_before :: "'a Compare \<Rightarrow> 'a \<Rightarrow> 'a \<Rightarrow> bool" where
  "weakly_before cmp a b \<equiv> a \<noteq> b \<and> \<not> cmp b a"

text \<open>A tree whose nodes carry the address they are stored at. The store holds such a
  tree when every node of it is found at its address, with its value and with the
  addresses of its two children as pointers. The addresses of a tree are pairwise
  different when no node occurs in it twice.\<close>

type_synonym 'a placed = "(addr \<times> 'a) sp_node"

fun ptr :: "'a placed \<Rightarrow> addr option" where
  "ptr Nullptr = None"
| "ptr (Node ax l r) = Some (fst ax)"

fun stored :: "(addr \<Rightarrow> 'a node option) \<Rightarrow> 'a placed \<Rightarrow> bool" where
  "stored h Nullptr = True"
| "stored h (Node ax l r) =
     (h (fst ax) = Some \<lparr>n_value = snd ax, n_left = ptr l, n_right = ptr r\<rparr> \<and>
      stored h l \<and> stored h r)"

fun values_of :: "'a placed \<Rightarrow> 'a sp_node" where
  "values_of Nullptr = Nullptr"
| "values_of (Node ax l r) = Node (snd ax) (values_of l) (values_of r)"

definition addrs :: "'a placed \<Rightarrow> addr list" where
  "addrs t = map fst (inorder t)"

text \<open>\<^verbatim>\<open>add\<close> and \<^verbatim>\<open>del\<close> on a tree with addresses: the tree that the store holds after
  the loop, with the new leaf at the address \<open>p\<close>.\<close>

fun add_placed :: "'a Compare \<Rightarrow> 'a \<Rightarrow> addr \<Rightarrow> 'a placed \<Rightarrow> 'a placed" where
  "add_placed cmp v p Nullptr = Nullptr"
| "add_placed cmp v p (Node ax l r) =
     (if v = snd ax then Node ax l r
      else if cmp v (snd ax) then
        (if l = Nullptr then Node ax (Node (p, v) Nullptr Nullptr) r
         else Node ax (add_placed cmp v p l) r)
      else
        (if r = Nullptr then Node ax l (Node (p, v) Nullptr Nullptr)
         else Node ax l (add_placed cmp v p r)))"

fun del_placed :: "'a Compare \<Rightarrow> 'a \<Rightarrow> 'a placed \<Rightarrow> 'a placed" where
  "del_placed cmp v Nullptr = Nullptr"
| "del_placed cmp v (Node ax l r) =
     (if v = snd ax then merge l r
      else if cmp v (snd ax) then Node ax (del_placed cmp v l) r
      else Node ax l (del_placed cmp v r))"

text \<open>The copy of a tree that the copying constructor of \<^verbatim>\<open>node\<close> builds when the next
  unused address is \<open>p\<close>: the node itself is allocated first, then the copy of its left
  subtree, then the copy of its right subtree.\<close>

fun copy_placed :: "addr \<Rightarrow> 'a placed \<Rightarrow> 'a placed" where
  "copy_placed p Nullptr = Nullptr"
| "copy_placed p (Node ax l r) =
     Node (p, snd ax) (copy_placed (Suc p) l) (copy_placed (Suc p + node_count l) r)"

text \<open>The iterator of the store that corresponds to an iterator over a tree with
  addresses, and the leftmost node of such a tree.\<close>

definition addr_of :: "'a placed \<Rightarrow> addr" where
  "addr_of n = fst (val n)"

definition store_iter :: "(addr \<times> 'a) TreeSetIter \<Rightarrow> iter_st" where
  "store_iter it = \<lparr>i_stack = map addr_of (next_node_stack it), i_current = ptr (current_node it)\<rparr>"

definition iter_stored :: "(addr \<Rightarrow> 'a node option) \<Rightarrow> (addr \<times> 'a) TreeSetIter \<Rightarrow> bool" where
  "iter_stored h it =
     (iter_ok it \<and> stored h (current_node it) \<and> (\<forall>n \<in> set (next_node_stack it). stored h n))"

fun leftmost_of :: "'a placed \<Rightarrow> addr" where
  "leftmost_of Nullptr = 0"
| "leftmost_of (Node ax l r) = (if l = Nullptr then fst ax else leftmost_of l)"

text \<open>What the loop of \<^verbatim>\<open>del\<close> needs of \<open>parent\<close> on the way down (the root slot or a child
  slot of the parent holds the pointer to the subtree), which link it has overwritten
  afterwards, and what the walks of \<^verbatim>\<open>del\<close>, \<^verbatim>\<open>add\<close> and \<^verbatim>\<open>merge\<close> on the store achieve for a
  tree that the store holds: the result of the tree model, the new tree in the store,
  and no change to any node outside the tree.\<close>

definition parent_ok :: "'a store \<Rightarrow> nat \<Rightarrow> addr option \<Rightarrow> 'a placed \<Rightarrow> bool" where
  "parent_ok st this parent t =
     (case parent of
        None \<Rightarrow> o_root (sets st this) = ptr t
      | Some pa \<Rightarrow>
          pa \<notin> set (addrs t) \<and>
          (\<exists>pnd. nodes st pa = Some pnd \<and> (n_left pnd = ptr t \<or> n_right pnd = ptr t)))"

definition link_updated ::
    "'a store \<Rightarrow> 'a store \<Rightarrow> nat \<Rightarrow> addr option \<Rightarrow> 'a placed \<Rightarrow> 'a placed \<Rightarrow> bool" where
  "link_updated st st' this parent t t' =
     (case parent of
        None \<Rightarrow> o_root (sets st' this) = ptr t'
      | Some pa \<Rightarrow>
          o_root (sets st' this) = o_root (sets st this) \<and>
          (\<exists>pnd. nodes st pa = Some pnd \<and>
             nodes st' pa = Some (if n_left pnd = ptr t then pnd\<lparr>n_left := ptr t'\<rparr>
                                  else pnd\<lparr>n_right := ptr t'\<rparr>)))"

definition del_walk_ok ::
    "'a Compare \<Rightarrow> 'a \<Rightarrow> nat \<Rightarrow> 'a placed \<Rightarrow> addr option \<Rightarrow> 'a store \<Rightarrow> 'a store \<Rightarrow> bool" where
  "del_walk_ok cmp v this t parent st st' =
     (del_walk cmp v this (ptr t) parent st = Some (fst (del_loop cmp v (values_of t)), st') \<and>
      stored (nodes st') (del_placed cmp v t) \<and>
      next_addr st' = next_addr st \<and>
      (\<forall>other. other \<noteq> this \<longrightarrow> sets st' other = sets st other) \<and>
      o_size (sets st' this)
        = o_size (sets st this) - (if fst (del_loop cmp v (values_of t)) then 1 else 0) \<and>
      (\<forall>c. c \<notin> set (addrs t) \<and> Some c \<noteq> parent \<longrightarrow> nodes st' c = nodes st c) \<and>
      link_updated st st' this parent t (del_placed cmp v t))"

definition add_walk_ok ::
    "'a Compare \<Rightarrow> 'a \<Rightarrow> 'a placed \<Rightarrow> 'a store \<Rightarrow> 'a store \<Rightarrow> bool" where
  "add_walk_ok cmp v t st st' =
     (add_walk cmp v (ptr t) st = Some (fst (add_loop cmp v (values_of t)), st') \<and>
      stored (nodes st') (add_placed cmp v (next_addr st) t) \<and>
      sets st' = sets st \<and>
      (\<forall>b. b \<notin> set (addrs t) \<and> b \<noteq> next_addr st \<longrightarrow> nodes st' b = nodes st b) \<and>
      next_addr st' = (if fst (add_loop cmp v (values_of t)) then Suc (next_addr st) else next_addr st))"

definition merge_ok :: "'a placed \<Rightarrow> 'a placed \<Rightarrow> 'a store \<Rightarrow> 'a store \<Rightarrow> bool" where
  "merge_ok l r st st' =
     (merge_st (ptr l) (ptr r) st = Some (ptr (merge l r), st') \<and>
      stored (nodes st') (merge l r) \<and>
      sets st' = sets st \<and> next_addr st' = next_addr st \<and>
      (\<forall>b. b \<notin> set (addrs r) \<longrightarrow> nodes st' b = nodes st b))"

text \<open>The object \<open>this\<close> of the store is the set \<open>s\<close> of the tree model, with its nodes
  at the addresses of \<open>t\<close>. A sequence of \<^verbatim>\<open>add\<close> and \<^verbatim>\<open>del\<close> calls on the object, with the
  values they return.\<close>

definition represents :: "'a store \<Rightarrow> nat \<Rightarrow> 'a TreeSet \<Rightarrow> 'a placed \<Rightarrow> bool" where
  "represents st this s t =
     (o_root (sets st this) = ptr t \<and> o_size (sets st this) = s_size s \<and>
      s_root s = values_of t \<and> stored (nodes st) t \<and> distinct (addrs t) \<and>
      (\<forall>a \<in> set (addrs t). a < next_addr st))"

fun apply_op_st ::
    "'a Compare \<Rightarrow> nat \<Rightarrow> 'a operation \<Rightarrow> 'a store \<Rightarrow> (bool \<times> 'a store) option" where
  "apply_op_st cmp this (Add v) st = add_st cmp this v st"
| "apply_op_st cmp this (Del v) st = del_st cmp this v st"

fun run_st ::
    "'a Compare \<Rightarrow> nat \<Rightarrow> 'a operation list \<Rightarrow> 'a store \<Rightarrow> (bool list \<times> 'a store) option" where
  "run_st cmp this [] st = Some ([], st)"
| "run_st cmp this (op # ops) st =
     (case apply_op_st cmp this op st of
        None \<Rightarrow> None
      | Some (b, st1) \<Rightarrow>
          (case run_st cmp this ops st1 of
             None \<Rightarrow> None
           | Some (bs, st2) \<Rightarrow> Some (b # bs, st2)))"

fun results :: "'a Compare \<Rightarrow> 'a TreeSet \<Rightarrow> 'a operation list \<Rightarrow> bool list" where
  "results cmp s [] = []"
| "results cmp s (op # ops) =
     fst (apply_op cmp op s) # results cmp (snd (apply_op cmp op s)) ops"

text \<open>A comparator that is a strict weak order and not a total one: strings by length,
  as in \<^verbatim>\<open>TreeSet<std::string, Shorter>\<close>. Two different strings of one length are
  equivalent under it.\<close>

definition shorter :: "string Compare" where
  "shorter a b = (length a < length b)"

text \<open>Texts joined by single commas.\<close>

fun join_commas :: "string list \<Rightarrow> string" where
  "join_commas [] = []"
| "join_commas [x] = x"
| "join_commas (x # y # ys) = x @ '','' @ join_commas (y # ys)"

section \<open>Traversal\<close>

lemma rest_of_push_left:
  "concat (map rest_of (push_left n stk)) = inorder n @ concat (map rest_of stk)"
  by (induction n stk rule: push_left.induct) simp_all

lemma push_left_no_null: "Nullptr \<notin> set stk \<Longrightarrow> Nullptr \<notin> set (push_left n stk)"
  by (induction n stk rule: push_left.induct) simp_all

lemma iter_ok_traverse_to_leftmost:
  "Nullptr \<notin> set (next_node_stack it) \<Longrightarrow> iter_ok (inorder_traverse_to_leftmost_node n it)"
  using push_left_no_null [of "next_node_stack it" n]
  by (cases "push_left n (next_node_stack it)")
     (auto simp: iter_ok_def inorder_traverse_to_leftmost_node_def)

lemma rest_of_traverse_to_leftmost:
  "rest_of (current_node (inorder_traverse_to_leftmost_node n it))
     @ concat (map rest_of (next_node_stack (inorder_traverse_to_leftmost_node n it)))
   = inorder n @ concat (map rest_of (next_node_stack it))"
  using rest_of_push_left [of n "next_node_stack it"]
  by (cases "push_left n (next_node_stack it)")
     (auto simp: inorder_traverse_to_leftmost_node_def)

lemma iter_ok_incr:
  assumes "iter_ok it"
  shows "iter_ok (incr it)"
proof (cases "current_node it = Nullptr")
  case True
  with assms show ?thesis by (simp add: incr_def)
next
  case False
  from assms have "Nullptr \<notin> set (next_node_stack it)" by (simp add: iter_ok_def)
  then have "iter_ok (inorder_traverse_to_leftmost_node (right (current_node it)) it)"
    by (rule iter_ok_traverse_to_leftmost)
  with False show ?thesis by (simp add: incr_def)
qed

lemma traverse_iter_ok:
  "iter_ok it \<Longrightarrow>
   traverse it = rest_of (current_node it) @ concat (map rest_of (next_node_stack it))"
proof (induction it rule: traverse.induct)
  case (1 it)
  show ?case
  proof (cases "current_node it")
    case Nullptr
    with "1.prems" show ?thesis
      by (simp add: traverse.simps [of it] at_end_def iter_ok_def)
  next
    case (Node x l r)
    then have ne: "\<not> at_end it" by (simp add: at_end_def)
    have "traverse (incr it) = rest_of (current_node (incr it))
            @ concat (map rest_of (next_node_stack (incr it)))"
      using "1.IH" [OF ne] "1.prems" by (simp add: iter_ok_incr)
    also have "\<dots> = inorder r @ concat (map rest_of (next_node_stack it))"
      by (simp add: incr_def Node rest_of_traverse_to_leftmost)
    finally show ?thesis
      using ne by (simp add: traverse.simps [of it] deref_def Node)
  qed
qed

lemma elements_inorder: "elements s = inorder (s_root s)"
proof -
  have "iter_ok (begin_it s)"
    by (simp add: begin_it_def TreeSetIter_at_def TreeSetIter_default_def iter_ok_traverse_to_leftmost)
  then have "traverse (begin_it s) = rest_of (current_node (begin_it s))
               @ concat (map rest_of (next_node_stack (begin_it s)))"
    by (rule traverse_iter_ok)
  also have "\<dots> = inorder (s_root s)"
    by (simp add: begin_it_def TreeSetIter_at_def rest_of_traverse_to_leftmost TreeSetIter_default_def)
  finally show ?thesis by (simp add: elements_def)
qed

lemma add_each_foldl:
  "add_each cmp it new_set = foldl (\<lambda>s x. snd (add cmp x s)) new_set (traverse it)"
proof (induction cmp it new_set rule: add_each.induct)
  case (1 cmp it new_set)
  show ?case
  proof (cases "at_end it")
    case True
    then show ?thesis by (simp add: add_each.simps [of cmp it] traverse.simps [of it])
  next
    case False
    then show ?thesis
      using "1.IH" by (simp add: add_each.simps [of cmp it] traverse.simps [of it])
  qed
qed

lemma equal_loop_traverse:
  "equal_loop a b = (traverse a = traverse b)"
proof (induction a b rule: equal_loop.induct)
  case (1 a b)
  show ?case
  proof (cases "\<not> at_end a \<and> \<not> at_end b")
    case True
    then show ?thesis
      using "1.IH" by (simp add: equal_loop.simps [of a b] traverse.simps [of a] traverse.simps [of b])
  next
    case False
    then show ?thesis
      by (auto simp add: equal_loop.simps [of a b] traverse.simps [of a] traverse.simps [of b])
  qed
qed

section \<open>The search-tree invariant under add, merge and del\<close>

lemma swo_irrefl: "strict_weak_order cmp \<Longrightarrow> \<not> cmp a a"
  by (simp add: strict_weak_order_def)

lemma swo_trans: "strict_weak_order cmp \<Longrightarrow> cmp a b \<Longrightarrow> cmp b c \<Longrightarrow> cmp a c"
  unfolding strict_weak_order_def by blast

lemma swo_asym: "strict_weak_order cmp \<Longrightarrow> cmp a b \<Longrightarrow> \<not> cmp b a"
  unfolding strict_weak_order_def by blast

lemma swo_negtrans: "strict_weak_order cmp \<Longrightarrow> cmp a b \<Longrightarrow> cmp a c \<or> cmp c b"
  unfolding strict_weak_order_def by blast

lemma contains_loop_iff:
  "search_tree cmp t \<Longrightarrow> contains_loop cmp v t = (v \<in> set (inorder t))"
  by (induction t) auto

lemma add_loop_found:
  "search_tree cmp t \<Longrightarrow> t \<noteq> Nullptr \<Longrightarrow> fst (add_loop cmp v t) = (v \<notin> set (inorder t))"
  by (induction t) (auto simp: case_prod_beta)

lemma add_loop_present:
  "search_tree cmp t \<Longrightarrow> v \<in> set (inorder t) \<Longrightarrow> add_loop cmp v t = (False, t)"
  by (induction t) (auto simp: case_prod_beta)

lemma add_loop_set:
  "t \<noteq> Nullptr \<Longrightarrow> set (inorder (snd (add_loop cmp v t))) = insert v (set (inorder t))"
  by (induction t) (auto simp: case_prod_beta)

lemma add_loop_search_tree:
  "search_tree cmp t \<Longrightarrow> search_tree cmp (snd (add_loop cmp v t))"
proof (induction t)
  case Nullptr
  show ?case by simp
next
  case (Node x l r)
  have l: "l \<noteq> Nullptr \<Longrightarrow> set (inorder (snd (add_loop cmp v l))) = insert v (set (inorder l))"
    by (rule add_loop_set)
  have r: "r \<noteq> Nullptr \<Longrightarrow> set (inorder (snd (add_loop cmp v r))) = insert v (set (inorder r))"
    by (rule add_loop_set)
  from Node l r show ?case
    by (auto simp: case_prod_beta)
qed

lemma add_loop_count:
  "node_count (snd (add_loop cmp v t)) = node_count t + (if fst (add_loop cmp v t) then 1 else 0)"
  by (induction t) (auto simp: case_prod_beta)

lemma add_loop_not_null: "t \<noteq> Nullptr \<Longrightarrow> snd (add_loop cmp v t) \<noteq> Nullptr"
  by (cases t) (auto simp: case_prod_beta)

lemma inorder_attach_leftmost:
  "big \<noteq> Nullptr \<Longrightarrow> inorder (attach_leftmost small big) = inorder small @ inorder big"
  by (induction big) auto

lemma inorder_merge: "inorder (merge small big) = inorder small @ inorder big"
  by (simp add: merge_def inorder_attach_leftmost)

lemma node_count_attach_leftmost:
  "big \<noteq> Nullptr \<Longrightarrow> node_count (attach_leftmost small big) = node_count small + node_count big"
  by (induction big) auto

lemma node_count_merge: "node_count (merge small big) = node_count small + node_count big"
  by (simp add: merge_def node_count_attach_leftmost)

lemma search_tree_attach_leftmost:
  "search_tree cmp small \<Longrightarrow> search_tree cmp big \<Longrightarrow> big \<noteq> Nullptr \<Longrightarrow>
   (\<forall>x \<in> set (inorder small). \<forall>y \<in> set (inorder big). x \<noteq> y \<and> cmp x y) \<Longrightarrow>
   search_tree cmp (attach_leftmost small big)"
  by (induction big) (auto simp: inorder_attach_leftmost)

lemma search_tree_merge:
  "search_tree cmp small \<Longrightarrow> search_tree cmp big \<Longrightarrow>
   (\<forall>x \<in> set (inorder small). \<forall>y \<in> set (inorder big). x \<noteq> y \<and> cmp x y) \<Longrightarrow>
   search_tree cmp (merge small big)"
  by (simp add: merge_def search_tree_attach_leftmost)

lemma del_loop_found: "fst (del_loop cmp v t) = contains_loop cmp v t"
  by (induction t) (auto simp: case_prod_beta)

lemma del_loop_absent: "\<not> fst (del_loop cmp v t) \<Longrightarrow> del_loop cmp v t = (False, t)"
  by (induction t) (auto simp: case_prod_beta split: if_splits)

lemma search_tree_distinct: "search_tree cmp t \<Longrightarrow> distinct (inorder t)"
  by (induction t) auto

lemma inorder_del_loop:
  "search_tree cmp t \<Longrightarrow> inorder (snd (del_loop cmp v t)) = remove1 v (inorder t)"
proof (induction t)
  case Nullptr
  show ?case by simp
next
  case (Node x l r)
  from Node.prems have st: "search_tree cmp l" "search_tree cmp r" by simp_all
  from Node.prems have xl: "x \<notin> set (inorder l)" by auto
  show ?case
  proof (cases "v = x")
    case True
    with xl show ?thesis
      by (simp add: inorder_merge remove1_append)
  next
    case False
    show ?thesis
    proof (cases "cmp v x")
      case True
      have nr: "v \<notin> set (inorder r)" using Node.prems True by auto
      have "inorder (snd (del_loop cmp v (Node x l r)))
              = inorder (snd (del_loop cmp v l)) @ x # inorder r"
        using False True by (simp add: case_prod_beta)
      also have "\<dots> = remove1 v (inorder l) @ x # inorder r"
        using Node.IH(1) [OF st(1)] by simp
      also have "\<dots> = remove1 v (inorder l @ x # inorder r)"
        using nr False by (simp add: remove1_append remove1_idem)
      finally show ?thesis by simp
    next
      case nc: False
      have nl: "v \<notin> set (inorder l)" using Node.prems nc by auto
      have "inorder (snd (del_loop cmp v (Node x l r)))
              = inorder l @ x # inorder (snd (del_loop cmp v r))"
        using False nc by (simp add: case_prod_beta)
      also have "\<dots> = inorder l @ x # remove1 v (inorder r)"
        using Node.IH(2) [OF st(2)] by simp
      also have "\<dots> = remove1 v (inorder l @ x # inorder r)"
        using nl False by (simp add: remove1_append)
      finally show ?thesis by simp
    qed
  qed
qed

lemma del_loop_search_tree:
  assumes "strict_weak_order cmp"
  shows "search_tree cmp t \<Longrightarrow> search_tree cmp (snd (del_loop cmp v t))"
proof (induction t)
  case Nullptr
  show ?case by simp
next
  case (Node x l r)
  from Node.prems have st: "search_tree cmp l" "search_tree cmp r" by simp_all
  have cross: "\<forall>a \<in> set (inorder l). \<forall>b \<in> set (inorder r). a \<noteq> b \<and> cmp a b"
  proof (intro ballI)
    fix a b assume "a \<in> set (inorder l)" "b \<in> set (inorder r)"
    with Node.prems have "cmp a x" "\<not> cmp b x" by auto
    with swo_negtrans [OF assms, of a x b] show "a \<noteq> b \<and> cmp a b" by auto
  qed
  have l: "set (inorder (snd (del_loop cmp v l))) \<subseteq> set (inorder l)"
    using st by (simp add: inorder_del_loop set_remove1_subset)
  have r: "set (inorder (snd (del_loop cmp v r))) \<subseteq> set (inorder r)"
    using st by (simp add: inorder_del_loop set_remove1_subset)
  show ?case
  proof (cases "v = x")
    case True
    with st cross show ?thesis by (simp add: search_tree_merge)
  next
    case False
    show ?thesis
    proof (cases "cmp v x")
      case True
      have "search_tree cmp (Node x (snd (del_loop cmp v l)) r)"
        using Node.IH(1) [OF st(1)] Node.prems l by auto
      with False True show ?thesis by (simp add: case_prod_beta)
    next
      case nc: False
      have "search_tree cmp (Node x l (snd (del_loop cmp v r)))"
        using Node.IH(2) [OF st(2)] Node.prems r by auto
      with False nc show ?thesis by (simp add: case_prod_beta)
    qed
  qed
qed

lemma del_loop_count:
  "node_count t = node_count (snd (del_loop cmp v t)) + (if fst (del_loop cmp v t) then 1 else 0)"
  by (induction t) (auto simp: node_count_merge case_prod_beta)

section \<open>Sets built by add and del\<close>

lemma node_count_0: "(node_count t = 0) = (t = Nullptr)"
  by (cases t) simp_all

lemma length_inorder: "length (inorder t) = node_count t"
  by (induction t) simp_all

lemma well_formed_empty: "well_formed cmp TreeSet_empty"
  by (simp add: well_formed_def TreeSet_empty_def)

lemma well_formed_root_null: "well_formed cmp s \<Longrightarrow> (size_of s = 0) = (s_root s = Nullptr)"
  by (simp add: well_formed_def size_of_def node_count_0)

lemma well_formed_add: "well_formed cmp s \<Longrightarrow> well_formed cmp (snd (add cmp v s))"
  by (simp add: well_formed_def add_def size_of_def case_prod_beta add_loop_search_tree add_loop_count)

lemma well_formed_del: "strict_weak_order cmp \<Longrightarrow> well_formed cmp s \<Longrightarrow> well_formed cmp (snd (del cmp v s))"
  using del_loop_count [of "s_root s" cmp v]
  by (simp add: well_formed_def del_def size_of_def case_prod_beta del_loop_search_tree)

lemma well_formed_apply_op: "strict_weak_order cmp \<Longrightarrow> well_formed cmp s \<Longrightarrow> well_formed cmp (snd (apply_op cmp op s))"
  by (cases op) (simp_all add: well_formed_add well_formed_del)

lemma well_formed_foldl_ops:
  "strict_weak_order cmp \<Longrightarrow> well_formed cmp s \<Longrightarrow>
   well_formed cmp (foldl (\<lambda>s op. snd (apply_op cmp op s)) s ops)"
  by (induction ops arbitrary: s) (simp_all add: well_formed_apply_op)

lemma well_formed_run: "strict_weak_order cmp \<Longrightarrow> well_formed cmp (run cmp ops)"
  by (simp add: run_def well_formed_foldl_ops well_formed_empty)

lemma counted_add: "counted s \<Longrightarrow> counted (snd (add cmp v s))"
  by (simp add: counted_def add_def size_of_def case_prod_beta add_loop_count)

lemma counted_del: "counted s \<Longrightarrow> counted (snd (del cmp v s))"
  using del_loop_count [of "s_root s" cmp v]
  by (simp add: counted_def del_def size_of_def case_prod_beta)

lemma counted_run: "counted (run cmp ops)"
proof -
  have "counted s \<Longrightarrow> counted (foldl (\<lambda>s op. snd (apply_op cmp op s)) s ops)" for s
  proof (induction ops arbitrary: s)
    case Nil
    then show ?case by simp
  next
    case (Cons op ops)
    have "counted (snd (apply_op cmp op s))"
      using Cons.prems by (cases op) (simp_all add: counted_add counted_del)
    then show ?case using Cons.IH by simp
  qed
  then show ?thesis by (simp add: run_def counted_def TreeSet_empty_def)
qed

lemma size_is_traversal_length: "size_of (run cmp ops) = int (length (elements (run cmp ops)))"
  using counted_run [of cmp ops] by (simp add: counted_def size_of_def elements_inorder length_inorder)

lemma contains_iff: "well_formed cmp s \<Longrightarrow> contains cmp s v = (v \<in> set (elements s))"
  using well_formed_root_null [of cmp s]
  by (auto simp: contains_def elements_inorder contains_loop_iff well_formed_def)

lemma add_result: "well_formed cmp s \<Longrightarrow> fst (add cmp v s) = (v \<notin> set (elements s))"
  using well_formed_root_null [of cmp s]
  by (auto simp: add_def elements_inorder case_prod_beta add_loop_found well_formed_def)

lemma add_present: "well_formed cmp s \<Longrightarrow> v \<in> set (elements s) \<Longrightarrow> add cmp v s = (False, s)"
  using well_formed_root_null [of cmp s]
  by (auto simp: add_def elements_inorder add_loop_present well_formed_def)

lemma add_set: "well_formed cmp s \<Longrightarrow> set (elements (snd (add cmp v s))) = insert v (set (elements s))"
  using well_formed_root_null [of cmp s]
  by (auto simp: add_def elements_inorder case_prod_beta add_loop_set)

lemma add_size:
  "well_formed cmp s \<Longrightarrow> size_of (snd (add cmp v s)) = size_of s + (if v \<in> set (elements s) then 0 else 1)"
  using well_formed_root_null [of cmp s]
  by (auto simp: add_def elements_inorder case_prod_beta add_loop_found size_of_def well_formed_def)

lemma del_result: "fst (del cmp v s) = contains cmp s v"
  by (simp add: del_def contains_def case_prod_beta del_loop_found)

lemma del_absent: "\<not> contains cmp s v \<Longrightarrow> del cmp v s = (False, s)"
  using del_loop_absent [of cmp v "s_root s"]
  by (auto simp: del_def contains_def del_loop_found)

lemma del_elements: "well_formed cmp s \<Longrightarrow> elements (snd (del cmp v s)) = remove1 v (elements s)"
  using well_formed_root_null [of cmp s]
  by (auto simp: del_def elements_inorder case_prod_beta inorder_del_loop well_formed_def)

lemma del_size:
  "well_formed cmp s \<Longrightarrow> size_of (snd (del cmp v s)) = size_of s - (if contains cmp s v then 1 else 0)"
  by (simp add: del_def size_of_def case_prod_beta del_loop_found contains_def)

lemma well_formed_distinct: "well_formed cmp s \<Longrightarrow> distinct (elements s)"
  using search_tree_distinct [of cmp "s_root s"] by (simp add: well_formed_def elements_inorder)

section \<open>The in-order sequence under add, and its order\<close>

lemma ins_append_stop:
  "v \<noteq> a \<Longrightarrow> cmp v a \<Longrightarrow> ins cmp v (L @ a # R) = ins cmp v L @ a # R"
  by (induction L) simp_all

lemma ins_append_pass:
  "\<forall>b \<in> set L. b \<noteq> v \<and> \<not> cmp v b \<Longrightarrow> ins cmp v (L @ R) = L @ ins cmp v R"
  by (induction L) auto

lemma inorder_add_loop:
  assumes swo: "strict_weak_order cmp"
  shows "search_tree cmp t \<Longrightarrow> t \<noteq> Nullptr \<Longrightarrow>
         inorder (snd (add_loop cmp v t)) = ins cmp v (inorder t)"
proof (induction t)
  case Nullptr
  then show ?case by simp
next
  case (Node x l r)
  from Node.prems have st: "search_tree cmp l" "search_tree cmp r" by simp_all
  from Node.prems have lx: "\<forall>y \<in> set (inorder l). y \<noteq> x \<and> cmp y x" by simp
  show ?case
  proof (cases "v = x")
    case True
    have "\<forall>b \<in> set (inorder l). b \<noteq> v \<and> \<not> cmp v b"
      using lx True swo_asym [OF swo] by blast
    then have "ins cmp v (inorder l @ x # inorder r) = inorder l @ ins cmp v (x # inorder r)"
      by (rule ins_append_pass)
    with True show ?thesis by simp
  next
    case False
    show ?thesis
    proof (cases "cmp v x")
      case True
      have "inorder (snd (add_loop cmp v (Node x l r))) = ins cmp v (inorder l) @ x # inorder r"
      proof (cases "l = Nullptr")
        case True
        with False \<open>cmp v x\<close> show ?thesis by simp
      next
        case nn: False
        with False True Node.IH(1) [OF st(1) nn] show ?thesis by (simp add: case_prod_beta)
      qed
      also have "\<dots> = ins cmp v (inorder l @ x # inorder r)"
        using False True by (simp add: ins_append_stop)
      finally show ?thesis by simp
    next
      case nc: False
      have pass: "\<forall>b \<in> set (inorder l). b \<noteq> v \<and> \<not> cmp v b"
      proof
        fix b assume "b \<in> set (inorder l)"
        with lx have "cmp b x" by simp
        with nc swo_trans [OF swo, of v b x] show "b \<noteq> v \<and> \<not> cmp v b" by auto
      qed
      have "inorder (snd (add_loop cmp v (Node x l r))) = inorder l @ x # ins cmp v (inorder r)"
      proof (cases "r = Nullptr")
        case True
        with False nc show ?thesis by simp
      next
        case nn: False
        with False nc Node.IH(2) [OF st(2) nn] show ?thesis by (simp add: case_prod_beta)
      qed
      also have "\<dots> = inorder l @ ins cmp v (x # inorder r)"
        using False nc by simp
      also have "\<dots> = ins cmp v (inorder l @ x # inorder r)"
        using pass by (simp add: ins_append_pass)
      finally show ?thesis by simp
    qed
  qed
qed

lemma elements_add:
  "strict_weak_order cmp \<Longrightarrow> well_formed cmp s \<Longrightarrow> elements (snd (add cmp v s)) = ins cmp v (elements s)"
  using well_formed_root_null [of cmp s]
  by (auto simp: add_def elements_inorder case_prod_beta inorder_add_loop well_formed_def)

lemma search_tree_weakly_sorted:
  assumes swo: "strict_weak_order cmp"
  shows "search_tree cmp t \<Longrightarrow> sorted_wrt (weakly_before cmp) (inorder t)"
proof (induction t)
  case Nullptr
  show ?case by simp
next
  case (Node x l r)
  have "weakly_before cmp a b" if "a \<in> set (inorder l)" "b \<in> set (inorder r)" for a b
  proof -
    from that Node.prems have "cmp a x" "\<not> cmp b x" by auto
    with swo_trans [OF swo, of b a x] show ?thesis by auto
  qed
  moreover have "weakly_before cmp a x" if "a \<in> set (inorder l)" for a
    using that Node.prems swo_asym [OF swo, of a x] by auto
  moreover have "weakly_before cmp x b" if "b \<in> set (inorder r)" for b
    using that Node.prems by auto
  ultimately show ?case
    using Node by (simp add: sorted_wrt_append)
qed

lemma search_tree_strictly_sorted:
  assumes sto: "strict_total_order cmp"
  shows "search_tree cmp t \<Longrightarrow> sorted_wrt cmp (inorder t)"
proof -
  assume st: "search_tree cmp t"
  from sto have swo: "strict_weak_order cmp" by (simp add: strict_total_order_def)
  have "sorted_wrt (weakly_before cmp) (inorder t)"
    using swo st by (rule search_tree_weakly_sorted)
  moreover have "weakly_before cmp a b \<Longrightarrow> cmp a b" for a b
    using sto by (auto simp: strict_total_order_def)
  ultimately show ?thesis
    by (rule sorted_wrt_mono_rel [rotated]) simp
qed

lemma ins_snoc:
  "sorted_wrt (weakly_before cmp) (L @ [v]) \<Longrightarrow> ins cmp v L = L @ [v]"
  using ins_append_pass [of L v cmp "[]"] by (auto simp: sorted_wrt_append)

lemma ins_member:
  assumes "sorted_wrt (weakly_before cmp) L" "v \<in> set L"
  shows "ins cmp v L = L"
proof -
  from assms(2) obtain A B where L: "L = A @ v # B" by (auto simp: in_set_conv_decomp)
  with assms(1) have "\<forall>b \<in> set A. b \<noteq> v \<and> \<not> cmp v b" by (auto simp: sorted_wrt_append)
  then have "ins cmp v (A @ v # B) = A @ ins cmp v (v # B)" by (rule ins_append_pass)
  with L show ?thesis by simp
qed

lemma foldl_ins_sorted:
  "sorted_wrt (weakly_before cmp) L \<Longrightarrow> foldl (\<lambda>xs x. ins cmp x xs) [] L = L"
proof (induction L rule: rev_induct)
  case Nil
  show ?case by simp
next
  case (snoc v L)
  from snoc.prems have "sorted_wrt (weakly_before cmp) L" by (simp add: sorted_wrt_append)
  with snoc.IH have "foldl (\<lambda>xs x. ins cmp x xs) [] L = L" by simp
  with snoc.prems show ?case by (simp add: ins_snoc)
qed

lemma foldl_ins_members:
  "sorted_wrt (weakly_before cmp) L \<Longrightarrow> set xs \<subseteq> set L \<Longrightarrow>
   foldl (\<lambda>xs x. ins cmp x xs) L xs = L"
  by (induction xs) (simp_all add: ins_member)

section \<open>The loops of the set algebra, equality and output\<close>

lemma add_list_Nil: "add_list cmp s [] = s"
  by (simp add: add_list_def)

lemma add_list_Cons: "add_list cmp s (x # xs) = add_list cmp (snd (add cmp x s)) xs"
  by (simp add: add_list_def)

lemma add_list_append: "add_list cmp s (xs @ ys) = add_list cmp (add_list cmp s xs) ys"
  by (simp add: add_list_def)

lemma well_formed_add_list: "well_formed cmp s \<Longrightarrow> well_formed cmp (add_list cmp s xs)"
  by (induction xs arbitrary: s) (simp_all add: add_list_Nil add_list_Cons well_formed_add)

lemma set_add_list: "well_formed cmp s \<Longrightarrow> set (elements (add_list cmp s xs)) = set (elements s) \<union> set xs"
  by (induction xs arbitrary: s) (simp_all add: add_list_Nil add_list_Cons well_formed_add add_set)

lemma elements_add_list:
  "strict_weak_order cmp \<Longrightarrow> well_formed cmp s \<Longrightarrow>
   elements (add_list cmp s xs) = foldl (\<lambda>L x. ins cmp x L) (elements s) xs"
  by (induction xs arbitrary: s) (simp_all add: add_list_Nil add_list_Cons well_formed_add elements_add)

lemma add_list_run: "add_list cmp (run cmp ops) xs = run cmp (ops @ map Add xs)"
  by (simp add: add_list_def run_def foldl_map)

lemma add_each_list: "add_each cmp it new_set = add_list cmp new_set (traverse it)"
  by (simp add: add_each_foldl add_list_def)

lemma plus_list: "plus_set cmp this s = add_list cmp TreeSet_empty (elements this @ elements s)"
  by (simp add: plus_set_def add_each_list elements_def add_list_append)

lemma TreeSet_of_list_add_list: "TreeSet_of_list cmp xs = add_list cmp TreeSet_empty xs"
  by (simp add: TreeSet_of_list_def add_list_def)

lemma intersect_inner_foldl:
  "intersect_inner cmp x s_it new_set
     = foldl (\<lambda>n y. if x = y then snd (add cmp x n) else n) new_set (traverse s_it)"
proof (induction cmp x s_it new_set rule: intersect_inner.induct)
  case (1 cmp x s_it new_set)
  show ?case
  proof (cases "at_end s_it")
    case True
    then show ?thesis
      by (simp add: intersect_inner.simps [of cmp x s_it] traverse.simps [of s_it])
  next
    case False
    then show ?thesis
      using "1.IH" by (simp add: intersect_inner.simps [of cmp x s_it] traverse.simps [of s_it])
  qed
qed

lemma intersect_outer_foldl:
  "intersect_outer cmp this_it s new_set
     = foldl (\<lambda>n x. intersect_inner cmp x (begin_it s) n) new_set (traverse this_it)"
proof (induction cmp this_it s new_set rule: intersect_outer.induct)
  case (1 cmp this_it s new_set)
  show ?case
  proof (cases "at_end this_it")
    case True
    then show ?thesis
      by (simp add: intersect_outer.simps [of cmp this_it] traverse.simps [of this_it])
  next
    case False
    then show ?thesis
      using "1.IH" by (simp add: intersect_outer.simps [of cmp this_it] traverse.simps [of this_it])
  qed
qed

lemma minus_loop_foldl:
  "minus_loop cmp this_it s new_set
     = foldl (\<lambda>n x. if \<not> contains cmp s x then snd (add cmp x n) else n) new_set (traverse this_it)"
proof (induction cmp this_it s new_set rule: minus_loop.induct)
  case (1 cmp this_it s new_set)
  show ?case
  proof (cases "at_end this_it")
    case True
    then show ?thesis
      by (simp add: minus_loop.simps [of cmp this_it] traverse.simps [of this_it])
  next
    case False
    then show ?thesis
      using "1.IH" by (simp add: minus_loop.simps [of cmp this_it] traverse.simps [of this_it])
  qed
qed

lemma add_twice: "well_formed cmp n \<Longrightarrow> snd (add cmp x (snd (add cmp x n))) = snd (add cmp x n)"
  by (simp add: add_present well_formed_add add_set)

lemma inner_foldl_result:
  "well_formed cmp n \<Longrightarrow>
   foldl (\<lambda>n y. if x = y then snd (add cmp x n) else n) n ys
     = (if x \<in> set ys then snd (add cmp x n) else n)"
proof (induction ys arbitrary: n)
  case Nil
  show ?case by simp
next
  case (Cons y ys)
  show ?case
  proof (cases "x = y")
    case True
    have "well_formed cmp (snd (add cmp x n))" using Cons.prems by (rule well_formed_add)
    from Cons.IH [OF this] True Cons.prems show ?thesis by (simp add: add_twice)
  next
    case False
    with Cons.IH [OF Cons.prems] show ?thesis by simp
  qed
qed

lemma intersect_list:
  "intersect cmp this s
     = add_list cmp TreeSet_empty (filter (\<lambda>x. x \<in> set (elements s)) (elements this))"
proof -
  have "well_formed cmp n \<Longrightarrow>
        foldl (\<lambda>n x. intersect_inner cmp x (begin_it s) n) n xs
          = add_list cmp n (filter (\<lambda>x. x \<in> set (elements s)) xs)" for n xs
  proof (induction xs arbitrary: n)
    case Nil
    show ?case by (simp add: add_list_Nil)
  next
    case (Cons x xs)
    have step: "intersect_inner cmp x (begin_it s) n
                  = (if x \<in> set (elements s) then snd (add cmp x n) else n)"
      using Cons.prems by (simp add: intersect_inner_foldl inner_foldl_result elements_def)
    have "well_formed cmp (intersect_inner cmp x (begin_it s) n)"
      using Cons.prems by (simp add: step well_formed_add)
    from Cons.IH [OF this] show ?case by (simp add: step add_list_Cons)
  qed
  from this [OF well_formed_empty] show ?thesis
    by (simp add: intersect_def intersect_outer_foldl elements_def)
qed

lemma minus_list:
  "minus_set cmp this s
     = add_list cmp TreeSet_empty (filter (\<lambda>x. \<not> contains cmp s x) (elements this))"
proof -
  have "foldl (\<lambda>n x. if \<not> contains cmp s x then snd (add cmp x n) else n) n xs
          = add_list cmp n (filter (\<lambda>x. \<not> contains cmp s x) xs)" for n xs
    by (induction xs arbitrary: n) (simp_all add: add_list_Nil add_list_Cons)
  then show ?thesis
    by (simp add: minus_set_def minus_loop_foldl elements_def)
qed

lemma equal_iff: "equal_set s rhs = (elements s = elements rhs)"
  by (simp add: equal_set_def equal_loop_traverse elements_def)

section \<open>Comparators of the examples\<close>

lemma swo_less: "strict_weak_order ((<) :: int \<Rightarrow> int \<Rightarrow> bool)"
  by (auto simp: strict_weak_order_def)

lemma sto_less: "strict_total_order ((<) :: int \<Rightarrow> int \<Rightarrow> bool)"
  by (auto simp: strict_total_order_def strict_weak_order_def)

lemma sto_greater: "strict_total_order ((>) :: int \<Rightarrow> int \<Rightarrow> bool)"
  by (auto simp: strict_total_order_def strict_weak_order_def)

lemma swo_shorter: "strict_weak_order shorter"
  by (auto simp: strict_weak_order_def shorter_def)

lemma sto_swo: "strict_total_order cmp \<Longrightarrow> strict_weak_order cmp"
  by (simp add: strict_total_order_def)

lemma well_formed_size: "well_formed cmp s \<Longrightarrow> size_of s = int (length (elements s))"
  by (simp add: well_formed_def size_of_def elements_inorder length_inorder)

lemmas run_eval = run_def add_def del_def size_of_def TreeSet_empty_def
  merge_def contains_def elements_inorder

lemma run_Adds_wf_free: "add_list cmp TreeSet_empty xs = run cmp (map Add xs)"
  by (simp add: add_list_def run_def foldl_map)

lemma sorted_wrt_unique:
  assumes irr: "\<And>a. \<not> cmp a a" and asym: "\<And>a b. cmp a b \<Longrightarrow> \<not> cmp b a"
  shows "sorted_wrt cmp xs \<Longrightarrow> sorted_wrt cmp ys \<Longrightarrow> set xs = set ys \<Longrightarrow> xs = ys"
proof (induction xs arbitrary: ys)
  case Nil
  then show ?case by simp
next
  case (Cons x xs)
  then obtain y ys' where ys: "ys = y # ys'" by (cases ys) auto
  have xy: "x = y"
  proof (rule ccontr)
    assume ne: "x \<noteq> y"
    from Cons.prems ys ne have "x \<in> set ys'" by auto
    with Cons.prems(2) ys have "cmp y x" by simp
    from Cons.prems ys ne have "y \<in> set xs" by auto
    with Cons.prems(1) have "cmp x y" by simp
    with \<open>cmp y x\<close> asym show False by blast
  qed
  from Cons.prems(1) irr have "x \<notin> set xs" by auto
  moreover from Cons.prems(2) ys irr have "y \<notin> set ys'" by auto
  ultimately have "set xs = set ys'" using Cons.prems(3) ys xy by auto
  with Cons.IH [of ys'] Cons.prems ys have "xs = ys'" by simp
  with xy ys show ?case by simp
qed

lemma comparable_weakly_sorted:
  assumes "sorted_wrt (weakly_before cmp) L"
    and "\<forall>a \<in> set L. \<forall>b \<in> set L. a = b \<or> cmp a b \<or> cmp b a"
  shows "sorted_wrt cmp L"
  using assms(1)
proof (rule sorted_wrt_mono_rel [rotated])
  fix a b assume "a \<in> set L" "b \<in> set L" "weakly_before cmp a b"
  with assms(2) show "cmp a b" by blast
qed

lemma of_list_elements_sorted:
  assumes swo: "strict_weak_order cmp"
    and cmpb: "\<forall>a \<in> set xs. \<forall>b \<in> set xs. a = b \<or> cmp a b \<or> cmp b a"
  shows "sorted_wrt cmp (elements (TreeSet_of_list cmp xs))"
    and "set (elements (TreeSet_of_list cmp xs)) = set xs"
proof -
  have w: "well_formed cmp (TreeSet_of_list cmp xs)"
    by (simp add: TreeSet_of_list_add_list well_formed_add_list well_formed_empty)
  show s: "set (elements (TreeSet_of_list cmp xs)) = set xs"
    using set_add_list [OF well_formed_empty, of cmp xs]
    by (simp add: TreeSet_of_list_add_list elements_inorder TreeSet_empty_def)
  have ws: "sorted_wrt (weakly_before cmp) (elements (TreeSet_of_list cmp xs))"
    using w search_tree_weakly_sorted [OF swo] by (simp add: well_formed_def elements_inorder)
  from cmpb s have "\<forall>a \<in> set (elements (TreeSet_of_list cmp xs)).
      \<forall>b \<in> set (elements (TreeSet_of_list cmp xs)). a = b \<or> cmp a b \<or> cmp b a"
    by simp
  with ws show "sorted_wrt cmp (elements (TreeSet_of_list cmp xs))"
    by (rule comparable_weakly_sorted)
qed

lemma elements_empty: "elements TreeSet_empty = []"
  by (simp add: elements_inorder TreeSet_empty_def)

lemma well_formed_weakly_sorted:
  "strict_weak_order cmp \<Longrightarrow> well_formed cmp s \<Longrightarrow> sorted_wrt (weakly_before cmp) (elements s)"
  using search_tree_weakly_sorted [of cmp "s_root s"] by (simp add: well_formed_def elements_inorder)

lemma elements_add_list_empty:
  "strict_weak_order cmp \<Longrightarrow>
   elements (add_list cmp TreeSet_empty xs) = foldl (\<lambda>L x. ins cmp x L) [] xs"
  using elements_add_list [of cmp TreeSet_empty xs] by (simp add: well_formed_empty elements_empty)

lemma plus_self:
  assumes swo: "strict_weak_order cmp" and w: "well_formed cmp a"
  shows "elements (plus_set cmp a a) = elements a"
proof -
  have ws: "sorted_wrt (weakly_before cmp) (elements a)" using swo w by (rule well_formed_weakly_sorted)
  have "elements (plus_set cmp a a)
          = foldl (\<lambda>L x. ins cmp x L) (foldl (\<lambda>L x. ins cmp x L) [] (elements a)) (elements a)"
    using swo by (simp add: plus_list elements_add_list_empty)
  also have "\<dots> = foldl (\<lambda>L x. ins cmp x L) (elements a) (elements a)"
    using ws by (simp add: foldl_ins_sorted)
  also have "\<dots> = elements a"
    using ws by (simp add: foldl_ins_members)
  finally show ?thesis .
qed

lemma intersect_self:
  assumes swo: "strict_weak_order cmp" and w: "well_formed cmp a"
  shows "elements (intersect cmp a a) = elements a"
proof -
  have ws: "sorted_wrt (weakly_before cmp) (elements a)" using swo w by (rule well_formed_weakly_sorted)
  have "filter (\<lambda>x. x \<in> set (elements a)) (elements a) = elements a" by simp
  then have "elements (intersect cmp a a) = foldl (\<lambda>L x. ins cmp x L) [] (elements a)"
    using swo by (simp add: intersect_list elements_add_list_empty)
  with ws show ?thesis by (simp add: foldl_ins_sorted)
qed

lemma minus_self:
  assumes w: "well_formed cmp a"
  shows "minus_set cmp a a = TreeSet_empty"
proof -
  have "filter (\<lambda>x. \<not> contains cmp a x) (elements a) = []"
    using w by (simp add: contains_iff)
  then show ?thesis by (simp add: minus_list add_list_Nil)
qed

lemma plus_size:
  assumes wa: "well_formed cmp a" and wb: "well_formed cmp b"
  shows "max (size_of a) (size_of b) \<le> size_of (plus_set cmp a b)"
proof -
  let ?p = "plus_set cmp a b"
  have wp: "well_formed cmp ?p" by (simp add: plus_list well_formed_add_list well_formed_empty)
  have sp: "set (elements ?p) = set (elements a) \<union> set (elements b)"
    using set_add_list [OF well_formed_empty, of cmp "elements a @ elements b"]
    by (simp add: plus_list elements_empty)
  have "length (elements a) = card (set (elements a))"
    using well_formed_distinct [OF wa] by (simp add: distinct_card)
  also have "\<dots> \<le> card (set (elements ?p))"
    unfolding sp by (rule card_mono) simp_all
  also have "\<dots> = length (elements ?p)"
    using well_formed_distinct [OF wp] by (simp add: distinct_card)
  finally have a: "length (elements a) \<le> length (elements ?p)" .
  have "length (elements b) = card (set (elements b))"
    using well_formed_distinct [OF wb] by (simp add: distinct_card)
  also have "\<dots> \<le> card (set (elements ?p))"
    unfolding sp by (rule card_mono) simp_all
  also have "\<dots> = length (elements ?p)"
    using well_formed_distinct [OF wp] by (simp add: distinct_card)
  finally have b: "length (elements b) \<le> length (elements ?p)" .
  from a b show ?thesis
    by (simp add: well_formed_size [OF wa] well_formed_size [OF wb] well_formed_size [OF wp])
qed

lemma intersect_size:
  assumes wa: "well_formed cmp a" and wb: "well_formed cmp b"
  shows "size_of (intersect cmp a b) \<le> min (size_of a) (size_of b)"
proof -
  let ?i = "intersect cmp a b"
  have wi: "well_formed cmp ?i" by (simp add: intersect_list well_formed_add_list well_formed_empty)
  have si: "set (elements ?i) = set (elements a) \<inter> set (elements b)"
    using set_add_list [OF well_formed_empty, of cmp "filter (\<lambda>x. x \<in> set (elements b)) (elements a)"]
    by (auto simp: intersect_list elements_empty)
  have "length (elements ?i) = card (set (elements ?i))"
    using well_formed_distinct [OF wi] by (simp add: distinct_card)
  also have "\<dots> \<le> card (set (elements a))"
    unfolding si by (rule card_mono) simp_all
  also have "\<dots> = length (elements a)"
    using well_formed_distinct [OF wa] by (simp add: distinct_card)
  finally have a: "length (elements ?i) \<le> length (elements a)" .
  have "length (elements ?i) = card (set (elements ?i))"
    using well_formed_distinct [OF wi] by (simp add: distinct_card)
  also have "\<dots> \<le> card (set (elements b))"
    unfolding si by (rule card_mono) simp_all
  also have "\<dots> = length (elements b)"
    using well_formed_distinct [OF wb] by (simp add: distinct_card)
  finally have b: "length (elements ?i) \<le> length (elements b)" .
  from a b show ?thesis
    by (simp add: well_formed_size [OF wa] well_formed_size [OF wb] well_formed_size [OF wi])
qed

lemmas algebra_eval = plus_list intersect_list minus_list add_list_def

lemma output_loop_join:
  "output_loop put it os = os @ join_commas (map put (traverse it))"
proof (induction put it os rule: output_loop.induct)
  case (1 put it os)
  show ?case
  proof (cases "at_end it")
    case True
    then show ?thesis
      by (simp add: output_loop.simps [of put it] traverse.simps [of it])
  next
    case False
    let ?it1 = "incr it"
    let ?os1 = "os @ put (deref it)"
    let ?os2 = "if \<not> at_end ?it1 then ?os1 @ '','' else ?os1"
    have IH: "output_loop put ?it1 ?os2 = ?os2 @ join_commas (map put (traverse ?it1))"
      using "1.IH" [OF False refl refl refl] .
    have unfold: "output_loop put it os = output_loop put ?it1 ?os2"
      using False by (simp add: output_loop.simps [of put it os] Let_def)
    show ?thesis
    proof (cases "at_end ?it1")
      case True
      then have "traverse ?it1 = []" by (simp add: traverse.simps [of ?it1])
      with True False unfold IH show ?thesis
        by (simp add: traverse.simps [of it])
    next
      case ne: False
      then have "traverse ?it1 = deref ?it1 # traverse (incr ?it1)"
        by (simp add: traverse.simps [of ?it1])
      with ne False unfold IH show ?thesis
        by (simp add: traverse.simps [of it])
    qed
  qed
qed

lemma stream_out_join:
  "stream_out put os s = os @ ''['' @ join_commas (map put (elements s)) @ '']''"
  by (simp add: stream_out_def output_loop_join elements_def)

lemmas put_eval = put_int_def put_nat.simps

lemma sanity_check_range_successively:
  "sanity_check_range cmp t lo hi = successively cmp (lo # inorder t @ [hi])"
proof (induction t arbitrary: lo hi)
  case Nullptr
  show ?case by simp
next
  case (Node x l r)
  have "successively cmp (lo # inorder l @ x # inorder r @ [hi])
          = (successively cmp (lo # inorder l @ [x]) \<and> successively cmp (x # inorder r @ [hi]))"
    using successively_append_iff [of cmp "lo # inorder l @ [x]" "inorder r @ [hi]"]
          successively_append_iff [of cmp "lo # inorder l" "[x]"]
          successively_append_iff [of cmp "lo # inorder l" "x # inorder r @ [hi]"]
    by (cases "inorder r") (auto simp: successively_Cons)
  with Node show ?case by simp
qed

lemma sanity_check_range_inside:
  assumes sto: "strict_total_order cmp"
  shows "search_tree cmp t \<Longrightarrow> cmp lo hi \<Longrightarrow>
         \<forall>y \<in> set (inorder t). cmp lo y \<and> cmp y hi \<Longrightarrow> sanity_check_range cmp t lo hi"
proof (induction t arbitrary: lo hi)
  case Nullptr
  then show ?case by simp
next
  case (Node x l r)
  from sto have tot: "a \<noteq> b \<Longrightarrow> cmp a b \<or> cmp b a" for a b
    by (simp add: strict_total_order_def)
  from Node.prems have x: "cmp lo x" "cmp x hi" by simp_all
  have "\<forall>y \<in> set (inorder l). cmp lo y \<and> cmp y x" using Node.prems by auto
  with Node.prems x have l: "sanity_check_range cmp l lo x" by (intro Node.IH(1)) simp_all
  have "\<forall>y \<in> set (inorder r). cmp x y \<and> cmp y hi"
  proof
    fix y assume y: "y \<in> set (inorder r)"
    with Node.prems have "y \<noteq> x" "\<not> cmp y x" "cmp y hi" by auto
    with tot [of y x] show "cmp x y \<and> cmp y hi" by simp
  qed
  with Node.prems x have r: "sanity_check_range cmp r x hi" by (intro Node.IH(2)) simp_all
  from l r show ?case by simp
qed

lemma add_debug_agrees: "add_debug limits cmp v s = Inr r \<Longrightarrow> r = add cmp v s"
  by (auto simp: add_debug_def add_def Let_def split: if_splits)

lemma del_debug_agrees: "del_debug limits cmp v s = Inr r \<Longrightarrow> r = del cmp v s"
  by (auto simp: del_debug_def split: if_splits)

lemma debug_without_limits:
  "add_debug None cmp v s = Inr (add cmp v s)" "del_debug None cmp v s = Inr (del cmp v s)"
  by (simp_all add: add_debug_def del_debug_def sanity_check_def add_def)

lemma sint_INT_MIN: "sint INT_MIN = - 2147483648"
  by (simp add: INT_MIN_def)

lemma sint_INT_MAX: "sint INT_MAX = 2147483647"
  by (simp add: INT_MAX_def)

lemmas store_eval = empty_store_def make_node_def TreeSet_st_def add_st_def
  move_construct_def move_assign_def elements_st_def elements_from_def leftmost_st_def incr_st_def
  add_walk.simps push_left_st.simps traverse_st.simps store_a1_def

lemma store_a1_built: "add_st (<) 0 1 (TreeSet_st 0 empty_store) = Some (True, store_a1)"
  by (simp add: store_eval fun_eq_iff)

section \<open>The store against the tree model\<close>

text \<open>
  Where the nodes of a set are not shared, the operations on the store do what the
  operations of the tree model do: they return the same values and leave the store
  holding the tree that the model computes.
\<close>

lemma values_of_Nullptr: "(values_of t = Nullptr) = (t = Nullptr)"
  by (cases t) simp_all

lemma values_add_placed: "values_of (add_placed cmp v p t) = snd (add_loop cmp v (values_of t))"
  by (induction t) (simp_all add: case_prod_beta values_of_Nullptr)

lemma inorder_values_of: "inorder (values_of t) = map snd (inorder t)"
  by (induction t) simp_all

lemma addrs_Node: "addrs (Node ax l r) = addrs l @ fst ax # addrs r"
  by (simp add: addrs_def)

lemma addrs_Nullptr: "addrs Nullptr = []"
  by (simp add: addrs_def)

lemma stored_frame: "stored h t \<Longrightarrow> (\<forall>a \<in> set (addrs t). h' a = h a) \<Longrightarrow> stored h' t"
  by (induction t) (auto simp: addrs_Node)

lemma ptr_add_placed: "ptr (add_placed cmp v p t) = ptr t"
  by (cases t) simp_all

lemma addrs_add_placed: "set (addrs (add_placed cmp v p t)) \<subseteq> insert p (set (addrs t))"
  by (induction t) (auto simp: addrs_Node addrs_Nullptr)

lemma distinct_add_placed:
  "distinct (addrs t) \<Longrightarrow> p \<notin> set (addrs t) \<Longrightarrow> distinct (addrs (add_placed cmp v p t))"
proof (induction t)
  case Nullptr
  show ?case by (simp add: addrs_Nullptr)
next
  case (Node ax l r)
  have l: "set (addrs (add_placed cmp v p l)) \<subseteq> insert p (set (addrs l))"
    by (rule addrs_add_placed)
  have r: "set (addrs (add_placed cmp v p r)) \<subseteq> insert p (set (addrs r))"
    by (rule addrs_add_placed)
  from Node l r show ?case
    by (auto simp: addrs_Node addrs_Nullptr)
qed

lemma add_walk_refines:
  "stored (nodes st) t \<Longrightarrow> distinct (addrs t) \<Longrightarrow> \<forall>a \<in> set (addrs t). a < next_addr st \<Longrightarrow>
   t \<noteq> Nullptr \<Longrightarrow> \<exists>st'. add_walk_ok cmp v t st st'"
proof (induction t)
  case Nullptr
  then show ?case by simp
next
  case (Node ax l r)
  let ?a = "fst ax" and ?x = "snd ax" and ?p = "next_addr st"
  let ?nd = "\<lparr>n_value = ?x, n_left = ptr l, n_right = ptr r\<rparr>"
  from Node.prems have at: "nodes st ?a = Some ?nd" and sl: "stored (nodes st) l"
    and sr: "stored (nodes st) r" by simp_all
  from Node.prems have dl: "distinct (addrs l)" and dr: "distinct (addrs r)"
    and al: "?a \<notin> set (addrs l)" and ar: "?a \<notin> set (addrs r)"
    and lr: "set (addrs l) \<inter> set (addrs r) = {}"
    by (auto simp: addrs_Node)
  from Node.prems have bl: "\<forall>b \<in> set (addrs l). b < ?p" and br: "\<forall>b \<in> set (addrs r). b < ?p"
    and ba: "?a < ?p" by (auto simp: addrs_Node)
  show ?case
  proof (cases "v = ?x")
    case True
    with at Node.prems have "add_walk_ok cmp v (Node ax l r) st st"
      by (simp add: add_walk_ok_def add_walk.simps)
    then show ?thesis ..
  next
    case ne: False
    show ?thesis
    proof (cases "cmp v ?x")
      case True
      show ?thesis
      proof (cases "l = Nullptr")
        case lnull: True
        let ?st' = "st\<lparr>nodes := (nodes st)(?p \<mapsto> \<lparr>n_value = v, n_left = None, n_right = None\<rparr>,
                                          ?a \<mapsto> ?nd\<lparr>n_left := Some ?p\<rparr>),
                      next_addr := Suc ?p\<rparr>"
        have walk: "add_walk cmp v (ptr (Node ax l r)) st = Some (True, ?st')"
          using at ne True lnull by (simp add: add_walk.simps make_node_def)
        have "stored (nodes ?st') r"
          using sr ar br by (intro stored_frame [OF sr]) auto
        then have "stored (nodes ?st') (add_placed cmp v ?p (Node ax l r))"
          using ne True lnull ba by simp
        with walk ne True lnull have "add_walk_ok cmp v (Node ax l r) st ?st'"
          by (simp add: add_walk_ok_def addrs_Node)
        then show ?thesis ..
      next
        case lnn: False
        from Node.IH(1) [OF sl dl bl lnn] obtain st' where ok: "add_walk_ok cmp v l st st'" ..
        from lnn obtain la where pl: "ptr l = Some la" by (cases l) auto
        have walk: "add_walk cmp v (ptr (Node ax l r)) st = add_walk cmp v (ptr l) st"
          using at ne True pl by (simp add: add_walk.simps [of cmp v "Some ?a"])
        have fr: "nodes st' b = nodes st b" if "b \<notin> set (addrs l)" "b \<noteq> ?p" for b
          using ok that by (simp add: add_walk_ok_def)
        have "nodes st' ?a = Some ?nd" using fr [of ?a] al ba at by simp
        moreover have "stored (nodes st') r"
        proof (rule stored_frame [OF sr], rule ballI)
          fix b assume "b \<in> set (addrs r)"
          with lr br have "b \<notin> set (addrs l)" "b \<noteq> ?p" by auto
          then show "nodes st' b = nodes st b" by (rule fr)
        qed
        moreover have "stored (nodes st') (add_placed cmp v ?p l)"
          using ok by (simp add: add_walk_ok_def)
        ultimately have "stored (nodes st') (add_placed cmp v ?p (Node ax l r))"
          using ne True lnn by (simp add: ptr_add_placed)
        with walk ok ne True lnn have "add_walk_ok cmp v (Node ax l r) st st'"
          by (simp add: add_walk_ok_def addrs_Node case_prod_beta values_of_Nullptr)
        then show ?thesis ..
      qed
    next
      case nc: False
      show ?thesis
      proof (cases "r = Nullptr")
        case rnull: True
        let ?st' = "st\<lparr>nodes := (nodes st)(?p \<mapsto> \<lparr>n_value = v, n_left = None, n_right = None\<rparr>,
                                          ?a \<mapsto> ?nd\<lparr>n_right := Some ?p\<rparr>),
                      next_addr := Suc ?p\<rparr>"
        have walk: "add_walk cmp v (ptr (Node ax l r)) st = Some (True, ?st')"
          using at ne nc rnull by (simp add: add_walk.simps make_node_def)
        have "stored (nodes ?st') l"
          using sl al bl by (intro stored_frame [OF sl]) auto
        then have "stored (nodes ?st') (add_placed cmp v ?p (Node ax l r))"
          using ne nc rnull ba by simp
        with walk ne nc rnull have "add_walk_ok cmp v (Node ax l r) st ?st'"
          by (simp add: add_walk_ok_def addrs_Node)
        then show ?thesis ..
      next
        case rnn: False
        from Node.IH(2) [OF sr dr br rnn] obtain st' where ok: "add_walk_ok cmp v r st st'" ..
        from rnn obtain ra where pr: "ptr r = Some ra" by (cases r) auto
        have walk: "add_walk cmp v (ptr (Node ax l r)) st = add_walk cmp v (ptr r) st"
          using at ne nc pr by (simp add: add_walk.simps [of cmp v "Some ?a"])
        have fr: "nodes st' b = nodes st b" if "b \<notin> set (addrs r)" "b \<noteq> ?p" for b
          using ok that by (simp add: add_walk_ok_def)
        have "nodes st' ?a = Some ?nd" using fr [of ?a] ar ba at by simp
        moreover have "stored (nodes st') l"
        proof (rule stored_frame [OF sl], rule ballI)
          fix b assume "b \<in> set (addrs l)"
          with lr bl have "b \<notin> set (addrs r)" "b \<noteq> ?p" by auto
          then show "nodes st' b = nodes st b" by (rule fr)
        qed
        moreover have "stored (nodes st') (add_placed cmp v ?p r)"
          using ok by (simp add: add_walk_ok_def)
        ultimately have "stored (nodes st') (add_placed cmp v ?p (Node ax l r))"
          using ne nc rnn by (simp add: ptr_add_placed)
        with walk ok ne nc rnn have "add_walk_ok cmp v (Node ax l r) st st'"
          by (simp add: add_walk_ok_def addrs_Node case_prod_beta values_of_Nullptr)
        then show ?thesis ..
      qed
    qed
  qed
qed

lemma ptr_addr_of: "n \<noteq> Nullptr \<Longrightarrow> ptr n = Some (addr_of n)"
  by (cases n) (simp_all add: addr_of_def)

lemma push_left_st_refines:
  "stored h t \<Longrightarrow> push_left_st h (ptr t) (map addr_of stk) = Some (map addr_of (push_left t stk))"
proof (induction t arbitrary: stk)
  case Nullptr
  show ?case by (simp add: push_left_st.simps)
next
  case (Node ax l r)
  from Node.prems have "stored h l" by simp
  from Node.IH(1) [OF this, of "Node ax l r # stk"] Node.prems show ?case
    by (simp add: push_left_st.simps [of h "Some (fst ax)"] addr_of_def)
qed

lemma push_left_stored:
  "stored h t \<Longrightarrow> \<forall>n \<in> set stk. stored h n \<Longrightarrow> \<forall>n \<in> set (push_left t stk). stored h n"
  by (induction t stk rule: push_left.induct) simp_all

lemma leftmost_st_refines:
  assumes "stored h t" "Nullptr \<notin> set (next_node_stack it)"
  shows "leftmost_st h (ptr t) (store_iter it)
           = Some (store_iter (inorder_traverse_to_leftmost_node t it))"
proof -
  have pl: "push_left_st h (ptr t) (map addr_of (next_node_stack it))
              = Some (map addr_of (push_left t (next_node_stack it)))"
    using assms(1) by (rule push_left_st_refines)
  have nn: "Nullptr \<notin> set (push_left t (next_node_stack it))"
    using assms(2) by (rule push_left_no_null)
  show ?thesis
  proof (cases "push_left t (next_node_stack it)")
    case Nil
    with pl show ?thesis
      by (simp add: leftmost_st_def store_iter_def inorder_traverse_to_leftmost_node_def)
  next
    case (Cons n rest)
    with nn have "n \<noteq> Nullptr" by auto
    then have "ptr n = Some (addr_of n)" by (rule ptr_addr_of)
    with pl Cons show ?thesis
      by (simp add: leftmost_st_def store_iter_def inorder_traverse_to_leftmost_node_def)
  qed
qed

lemma leftmost_iter_stored:
  assumes "stored h t" "Nullptr \<notin> set (next_node_stack it)"
    "\<forall>n \<in> set (next_node_stack it). stored h n"
  shows "iter_stored h (inorder_traverse_to_leftmost_node t it)"
proof -
  have ok: "iter_ok (inorder_traverse_to_leftmost_node t it)"
    using assms(2) by (rule iter_ok_traverse_to_leftmost)
  have all: "\<forall>n \<in> set (push_left t (next_node_stack it)). stored h n"
    using assms(1,3) by (rule push_left_stored)
  show ?thesis
  proof (cases "push_left t (next_node_stack it)")
    case Nil
    with ok show ?thesis
      by (simp add: iter_stored_def inorder_traverse_to_leftmost_node_def)
  next
    case (Cons n rest)
    with ok all show ?thesis
      by (simp add: iter_stored_def inorder_traverse_to_leftmost_node_def)
  qed
qed

lemma incr_st_refines:
  assumes "iter_stored h it"
  shows "incr_st h (store_iter it) = Some (store_iter (incr it))" and "iter_stored h (incr it)"
proof -
  from assms have nn: "Nullptr \<notin> set (next_node_stack it)"
    and all: "\<forall>n \<in> set (next_node_stack it). stored h n"
    and cur: "stored h (current_node it)"
    by (simp_all add: iter_stored_def iter_ok_def)
  show "incr_st h (store_iter it) = Some (store_iter (incr it))"
  proof (cases "current_node it")
    case Nullptr
    then show ?thesis by (simp add: incr_st_def incr_def store_iter_def)
  next
    case (Node ax l r)
    with cur have at: "h (fst ax) = Some \<lparr>n_value = snd ax, n_left = ptr l, n_right = ptr r\<rparr>"
      and sr: "stored h r" by simp_all
    have "incr_st h (store_iter it) = leftmost_st h (ptr r) (store_iter it)"
      using at Node by (simp add: incr_st_def store_iter_def)
    also have "\<dots> = Some (store_iter (inorder_traverse_to_leftmost_node r it))"
      using sr nn by (rule leftmost_st_refines)
    finally show ?thesis using Node by (simp add: incr_def)
  qed
  show "iter_stored h (incr it)"
  proof (cases "current_node it")
    case Nullptr
    with assms show ?thesis by (simp add: incr_def)
  next
    case (Node ax l r)
    with cur have sr: "stored h r" by simp
    from leftmost_iter_stored [OF sr nn all] Node show ?thesis by (simp add: incr_def)
  qed
qed

lemma traverse_st_refines:
  "iter_stored h it \<Longrightarrow> traverse_st h (store_iter it) = Some (map snd (traverse it))"
proof (induction it rule: traverse.induct)
  case (1 it)
  show ?case
  proof (cases "current_node it")
    case Nullptr
    then have "i_current (store_iter it) = None" by (simp add: store_iter_def)
    then have "traverse_st h (store_iter it) = Some []"
      by (simp add: traverse_st.simps [of h "store_iter it"])
    with Nullptr show ?thesis
      by (simp add: traverse.simps [of it] at_end_def)
  next
    case (Node ax l r)
    then have ne: "\<not> at_end it" by (simp add: at_end_def)
    from "1.prems" Node have at: "h (fst ax) = Some \<lparr>n_value = snd ax, n_left = ptr l, n_right = ptr r\<rparr>"
      by (simp add: iter_stored_def)
    have cur: "i_current (store_iter it) = Some (fst ax)" using Node by (simp add: store_iter_def)
    have IH: "traverse_st h (store_iter (incr it)) = Some (map snd (traverse (incr it)))"
      using "1.IH" [OF ne] incr_st_refines(2) [OF "1.prems"] by simp
    have "traverse_st h (store_iter it) = Some (snd ax # map snd (traverse (incr it)))"
      using cur at incr_st_refines(1) [OF "1.prems"] IH
      by (simp add: traverse_st.simps [of h "store_iter it"])
    then show ?thesis
      using ne Node by (simp add: traverse.simps [of it] deref_def)
  qed
qed

lemma traverse_at: "traverse (TreeSetIter_at t) = inorder t"
  using elements_inorder [of "\<lparr>s_root = t, s_size = 0\<rparr>"] by (simp add: elements_def begin_it_def)

lemma elements_from_refines:
  assumes "stored h t"
  shows "elements_from h (ptr t) = Some (inorder (values_of t))"
proof -
  let ?d = "TreeSetIter_default :: (addr \<times> 'a) TreeSetIter"
  have d: "\<lparr>i_stack = [], i_current = None\<rparr> = store_iter ?d"
    by (simp add: store_iter_def TreeSetIter_default_def)
  have nn: "Nullptr \<notin> set (next_node_stack ?d)"
    by (simp add: TreeSetIter_default_def)
  have l: "leftmost_st h (ptr t) (store_iter ?d) = Some (store_iter (TreeSetIter_at t))"
    unfolding TreeSetIter_at_def using assms nn by (rule leftmost_st_refines)
  have "iter_stored h (inorder_traverse_to_leftmost_node t ?d)"
    by (rule leftmost_iter_stored [OF assms]) (simp_all add: TreeSetIter_default_def)
  then have "iter_stored h (TreeSetIter_at t)" by (simp add: TreeSetIter_at_def)
  then have "traverse_st h (store_iter (TreeSetIter_at t)) = Some (map snd (traverse (TreeSetIter_at t)))"
    by (rule traverse_st_refines)
  with l show ?thesis
    unfolding elements_from_def d by (simp add: traverse_at inorder_values_of)
qed

lemma values_merge: "values_of (merge l r) = merge (values_of l) (values_of r)"
proof -
  have "r \<noteq> Nullptr \<Longrightarrow> values_of (attach_leftmost l r) = attach_leftmost (values_of l) (values_of r)"
    by (induction r) (simp_all add: values_of_Nullptr)
  then show ?thesis by (simp add: merge_def values_of_Nullptr)
qed

lemma contains_walk_refines:
  "stored h t \<Longrightarrow> contains_walk cmp v (ptr t) h = Some (contains_loop cmp v (values_of t))"
proof (induction t)
  case Nullptr
  show ?case by (simp add: contains_walk.simps)
next
  case (Node ax l r)
  then show ?case by (simp add: contains_walk.simps [of cmp v "Some (fst ax)"])
qed

lemma leftmost_addr_refines:
  "stored h t \<Longrightarrow> t \<noteq> Nullptr \<Longrightarrow> leftmost_addr h (addr_of t) = Some (leftmost_of t)"
proof (induction t)
  case Nullptr
  then show ?case by simp
next
  case (Node ax l r)
  show ?case
  proof (cases "l = Nullptr")
    case True
    with Node.prems show ?thesis
      by (simp add: leftmost_addr.simps [of h "fst ax"] addr_of_def)
  next
    case False
    then have pl: "ptr l = Some (addr_of l)" by (rule ptr_addr_of)
    from Node.prems have "stored h l" by simp
    from Node.IH(1) [OF this False] have "leftmost_addr h (addr_of l) = Some (leftmost_of l)" .
    with Node.prems pl False show ?thesis
      by (simp add: leftmost_addr.simps [of h "fst ax"] addr_of_def)
  qed
qed

lemma leftmost_of_in: "t \<noteq> Nullptr \<Longrightarrow> leftmost_of t \<in> set (addrs t)"
  by (induction t) (auto simp: addrs_Node)

lemma addrs_attach_leftmost:
  "big \<noteq> Nullptr \<Longrightarrow> addrs (attach_leftmost small big) = addrs small @ addrs big"
  by (simp add: addrs_def inorder_attach_leftmost)

lemma addrs_merge: "addrs (merge small big) = addrs small @ addrs big"
  by (simp add: addrs_def inorder_merge)

lemma ptr_attach_leftmost: "big \<noteq> Nullptr \<Longrightarrow> ptr (attach_leftmost small big) = ptr big"
  by (cases big) simp_all

lemma stored_attach_leftmost:
  assumes "stored h small" "set (addrs small) \<inter> set (addrs big) = {}"
  shows "stored h big \<Longrightarrow> distinct (addrs big) \<Longrightarrow> big \<noteq> Nullptr \<Longrightarrow>
         h (leftmost_of big) = Some nd \<Longrightarrow>
         stored (h(leftmost_of big \<mapsto> nd\<lparr>n_left := ptr small\<rparr>)) (attach_leftmost small big)"
  using assms(2)
proof (induction big)
  case Nullptr
  then show ?case by simp
next
  case (Node ax l r)
  let ?h' = "h(leftmost_of (Node ax l r) \<mapsto> nd\<lparr>n_left := ptr small\<rparr>)"
  from Node.prems have sl: "stored h l" and sr: "stored h r"
    and at: "h (fst ax) = Some \<lparr>n_value = snd ax, n_left = ptr l, n_right = ptr r\<rparr>" by simp_all
  from Node.prems have dl: "distinct (addrs l)" and al: "fst ax \<notin> set (addrs l)"
    and ar: "fst ax \<notin> set (addrs r)" and lr: "set (addrs l) \<inter> set (addrs r) = {}"
    by (auto simp: addrs_Node)
  from Node.prems have sm: "set (addrs small) \<inter> set (addrs l) = {}"
    "set (addrs small) \<inter> set (addrs r) = {}" "fst ax \<notin> set (addrs small)"
    by (auto simp: addrs_Node)
  show ?case
  proof (cases "l = Nullptr")
    case True
    then have lm: "leftmost_of (Node ax l r) = fst ax" by simp
    let ?g = "h(fst ax \<mapsto> nd\<lparr>n_left := ptr small\<rparr>)"
    from Node.prems(4) at lm have ndeq: "nd = \<lparr>n_value = snd ax, n_left = ptr l, n_right = ptr r\<rparr>"
      by simp
    have 1: "stored ?g r" using ar by (intro stored_frame [OF sr]) auto
    have 2: "stored ?g small" using sm(3) by (intro stored_frame [OF assms(1)]) auto
    have 3: "?g (fst ax) = Some \<lparr>n_value = snd ax, n_left = ptr small, n_right = ptr r\<rparr>"
      using ndeq by simp
    have "stored ?g (Node ax small r)" using 1 2 3 by (simp only: stored.simps simp_thms)
    moreover have "attach_leftmost small (Node ax l r) = Node ax small r" using True by simp
    ultimately show ?thesis unfolding lm by (simp only:)
  next
    case False
    then have lm: "leftmost_of (Node ax l r) = leftmost_of l" by simp
    have inl: "leftmost_of l \<in> set (addrs l)" using False by (rule leftmost_of_in)
    from Node.prems lm have nd: "h (leftmost_of l) = Some nd" by simp
    let ?g = "h(leftmost_of l \<mapsto> nd\<lparr>n_left := ptr small\<rparr>)"
    have 1: "stored ?g (attach_leftmost small l)"
      using Node.IH(1) [OF sl dl False nd sm(1)] .
    have 2: "stored ?g r"
      using lr inl by (intro stored_frame [OF sr]) auto
    have "leftmost_of l \<noteq> fst ax" using inl al by auto
    then have 3: "?g (fst ax) = Some \<lparr>n_value = snd ax, n_left = ptr (attach_leftmost small l),
                                       n_right = ptr r\<rparr>"
      using at False by (simp add: ptr_attach_leftmost)
    have "stored ?g (Node ax (attach_leftmost small l) r)"
      using 1 2 3 by (simp only: stored.simps simp_thms)
    moreover have "attach_leftmost small (Node ax l r) = Node ax (attach_leftmost small l) r"
      using False by simp
    ultimately show ?thesis unfolding lm by (simp only:)
  qed
qed

lemma merge_st_refines:
  assumes sl: "stored (nodes st) l" and sr: "stored (nodes st) r"
    and dr: "distinct (addrs r)" and lr: "set (addrs l) \<inter> set (addrs r) = {}"
  shows "\<exists>st'. merge_ok l r st st'"
proof (cases "l = Nullptr")
  case True
  with sr have "merge_ok l r st st" by (simp add: merge_ok_def merge_st_def merge_def)
  then show ?thesis ..
next
  case lnn: False
  then obtain la where pl: "ptr l = Some la" by (cases l) auto
  show ?thesis
  proof (cases "r = Nullptr")
    case True
    with sl pl lnn have "merge_ok l r st st" by (simp add: merge_ok_def merge_st_def merge_def)
    then show ?thesis ..
  next
    case rnn: False
    then have pr: "ptr r = Some (addr_of r)" by (rule ptr_addr_of)
    have lm: "leftmost_addr (nodes st) (addr_of r) = Some (leftmost_of r)"
      using sr rnn by (rule leftmost_addr_refines)
    have inr: "leftmost_of r \<in> set (addrs r)" using rnn by (rule leftmost_of_in)
    have "\<exists>nd. nodes st (leftmost_of r) = Some nd"
      using sr inr
    proof (induction r)
      case Nullptr
      then show ?case by (simp add: addrs_Nullptr)
    next
      case (Node ax l' r')
      then show ?case by (cases "l' = Nullptr") (auto simp: addrs_Node dest: leftmost_of_in)
    qed
    then obtain nd where nd: "nodes st (leftmost_of r) = Some nd" ..
    let ?st' = "st\<lparr>nodes := (nodes st)(leftmost_of r \<mapsto> nd\<lparr>n_left := ptr l\<rparr>)\<rparr>"
    have "stored (nodes ?st') (attach_leftmost l r)"
      using stored_attach_leftmost [OF sl lr sr dr rnn nd] by simp
    with pl pr lm nd lnn rnn inr have "merge_ok l r st ?st'"
      by (auto simp: merge_ok_def merge_st_def merge_def ptr_attach_leftmost)
    then show ?thesis ..
  qed
qed

lemma values_del_placed: "values_of (del_placed cmp v t) = snd (del_loop cmp v (values_of t))"
  by (induction t) (simp_all add: case_prod_beta values_merge)

lemma addrs_del_placed: "set (addrs (del_placed cmp v t)) \<subseteq> set (addrs t)"
  by (induction t) (auto simp: addrs_Node addrs_merge)

lemma distinct_del_placed: "distinct (addrs t) \<Longrightarrow> distinct (addrs (del_placed cmp v t))"
proof (induction t)
  case Nullptr
  show ?case by (simp add: addrs_Nullptr)
next
  case (Node ax l r)
  have l: "set (addrs (del_placed cmp v l)) \<subseteq> set (addrs l)" by (rule addrs_del_placed)
  have r: "set (addrs (del_placed cmp v r)) \<subseteq> set (addrs r)" by (rule addrs_del_placed)
  from Node l r show ?case by (auto simp: addrs_Node addrs_merge)
qed

lemma ptr_in_addrs: "ptr t = Some a \<Longrightarrow> a \<in> set (addrs t)"
  by (cases t) (auto simp: addrs_Node)

lemma ptr_del_placed_miss: "v \<noteq> snd ax \<Longrightarrow> ptr (del_placed cmp v (Node ax l r)) = Some (fst ax)"
  by simp

lemma link_updated_ptr:
  "ptr t1 = ptr t2 \<Longrightarrow> link_updated st st' this parent t t2 \<Longrightarrow> link_updated st st' this parent t t1"
  by (simp only: link_updated_def)

lemma del_walk_refines:
  "stored (nodes st) t \<Longrightarrow> distinct (addrs t) \<Longrightarrow> parent_ok st this parent t \<Longrightarrow>
   \<exists>st'. del_walk_ok cmp v this t parent st st'"
proof (induction t arbitrary: parent)
  case Nullptr
  then have "del_walk_ok cmp v this Nullptr parent st st"
    by (auto simp: del_walk_ok_def del_walk.simps link_updated_def parent_ok_def
             split: option.splits)
  then show ?case ..
next
  case (Node ax l r)
  let ?a = "fst ax" and ?x = "snd ax" and ?t = "Node ax l r"
  let ?nd = "\<lparr>n_value = ?x, n_left = ptr l, n_right = ptr r\<rparr>"
  from Node.prems have at: "nodes st ?a = Some ?nd" and sl: "stored (nodes st) l"
    and sr: "stored (nodes st) r" by simp_all
  from Node.prems have dl: "distinct (addrs l)" and dr: "distinct (addrs r)"
    and al: "?a \<notin> set (addrs l)" and ar: "?a \<notin> set (addrs r)"
    and lr: "set (addrs l) \<inter> set (addrs r) = {}"
    by (auto simp: addrs_Node)
  show ?case
  proof (cases "v = ?x")
    case True
    from merge_st_refines [OF sl sr dr lr] obtain st1 where m: "merge_ok l r st st1" ..
    then have ms: "merge_st (ptr l) (ptr r) st = Some (ptr (merge l r), st1)"
      and s1: "stored (nodes st1) (merge l r)" and se: "sets st1 = sets st"
      and ne: "next_addr st1 = next_addr st"
      and fr: "\<And>b. b \<notin> set (addrs r) \<Longrightarrow> nodes st1 b = nodes st b"
      by (simp_all add: merge_ok_def)
    show ?thesis
    proof (cases parent)
      case None
      let ?st' = "decrement_size this (set_root this (ptr (merge l r)) st1)"
      have "del_walk cmp v this (ptr ?t) parent st = Some (True, ?st')"
        using at True ms None
        by (simp add: del_walk.simps [of cmp v this "Some ?a"] del_walk.simps [of cmp ?x this "Some ?a"])
      moreover have "stored (nodes ?st') (merge l r)"
        using s1 by (simp add: decrement_size_def set_root_def)
      ultimately have "del_walk_ok cmp v this ?t parent st ?st'"
        using True None se ne fr
        by (simp add: del_walk_ok_def link_updated_def decrement_size_def set_root_def addrs_Node)
      then show ?thesis ..
    next
      case (Some pa)
      with Node.prems(3) obtain pnd where pa: "pa \<notin> set (addrs ?t)"
        and pnd: "nodes st pa = Some pnd" by (auto simp: parent_ok_def)
      from pa have par: "pa \<notin> set (addrs r)" and pal: "pa \<notin> set (addrs l)"
        by (simp_all add: addrs_Node)
      have pnd1: "nodes st1 pa = Some pnd" using fr [OF par] pnd by simp
      let ?new = "if n_left pnd = Some ?a then pnd\<lparr>n_left := ptr (merge l r)\<rparr>
                  else pnd\<lparr>n_right := ptr (merge l r)\<rparr>"
      let ?st2 = "st1\<lparr>nodes := (nodes st1)(pa \<mapsto> ?new)\<rparr>"
      let ?st' = "decrement_size this ?st2"
      have rc: "replace_child pa (Some ?a) (ptr (merge l r)) st1 = Some ?st2"
        using pnd1 by (simp add: replace_child_def)
      have walk: "del_walk cmp v this (ptr ?t) parent st = Some (True, ?st')"
        using at True ms Some rc
        by (simp add: del_walk.simps [of cmp v this "Some ?a"] del_walk.simps [of cmp ?x this "Some ?a"])
      have "stored (nodes ?st2) (merge l r)"
        using par pal by (intro stored_frame [OF s1]) (auto simp: addrs_merge)
      then have st: "stored (nodes ?st') (merge l r)" by (simp add: decrement_size_def)
      have link: "link_updated st ?st' this parent ?t (merge l r)"
        using Some pnd se by (simp add: link_updated_def decrement_size_def)
      have frame: "\<forall>c. c \<notin> set (addrs ?t) \<and> Some c \<noteq> parent \<longrightarrow> nodes ?st' c = nodes st c"
        using Some fr by (auto simp: decrement_size_def addrs_Node)
      from walk st link frame True se ne have "del_walk_ok cmp v this ?t parent st ?st'"
        by (simp add: del_walk_ok_def decrement_size_def)
      then show ?thesis ..
    qed
  next
    case ne: False
    have outer: "link_updated st st' this parent ?t ?t"
      if root: "o_root (sets st' this) = o_root (sets st this)"
        and fr: "\<And>c. c \<notin> set (addrs ?t) \<Longrightarrow> nodes st' c = nodes st c" for st'
    proof (cases parent)
      case None
      with Node.prems(3) root show ?thesis by (simp add: link_updated_def parent_ok_def)
    next
      case (Some pa)
      with Node.prems(3) obtain pnd where pa: "pa \<notin> set (addrs ?t)"
        and pnd: "nodes st pa = Some pnd"
        and sl: "n_left pnd = ptr ?t \<or> n_right pnd = ptr ?t" by (auto simp: parent_ok_def)
      have "(if n_left pnd = ptr ?t then pnd\<lparr>n_left := ptr ?t\<rparr> else pnd\<lparr>n_right := ptr ?t\<rparr>) = pnd"
        using sl by auto
      with Some root pnd fr [OF pa] show ?thesis by (simp add: link_updated_def)
    qed
    show ?thesis
    proof (cases "cmp v ?x")
      case True
      have pok: "parent_ok st this (Some ?a) l" using al at by (simp add: parent_ok_def)
      from Node.IH(1) [OF sl dl pok] obtain st' where ok: "del_walk_ok cmp v this l (Some ?a) st st'" ..
      let ?l' = "del_placed cmp v l"
      have walk: "del_walk cmp v this (ptr ?t) parent st = del_walk cmp v this (ptr l) (Some ?a) st"
        using at ne True by (simp add: del_walk.simps [of cmp v this "Some ?a"])
      from ok have fr: "\<And>c. c \<notin> set (addrs l) \<Longrightarrow> c \<noteq> ?a \<Longrightarrow> nodes st' c = nodes st c"
        and sl': "stored (nodes st') ?l'"
        and root: "o_root (sets st' this) = o_root (sets st this)"
        and ata: "nodes st' ?a = Some (?nd\<lparr>n_left := ptr ?l'\<rparr>)"
        using at by (auto simp: del_walk_ok_def link_updated_def)
      have sr': "stored (nodes st') r"
      proof (rule stored_frame [OF sr], rule ballI)
        fix c assume "c \<in> set (addrs r)"
        with lr ar have "c \<notin> set (addrs l)" "c \<noteq> ?a" by auto
        then show "nodes st' c = nodes st c" by (rule fr)
      qed
      have t': "del_placed cmp v ?t = Node ax ?l' r" using ne True by simp
      have st: "stored (nodes st') (del_placed cmp v ?t)"
        unfolding t' using ata sl' sr' by simp
      have "link_updated st st' this parent ?t ?t"
        using root by (rule outer) (auto simp: addrs_Node intro: fr)
      moreover have "ptr (del_placed cmp v ?t) = ptr ?t" using ne by simp
      ultimately have link: "link_updated st st' this parent ?t (del_placed cmp v ?t)"
        by (rule link_updated_ptr [rotated])
      have frame: "\<forall>c. c \<notin> set (addrs ?t) \<and> Some c \<noteq> parent \<longrightarrow> nodes st' c = nodes st c"
        by (auto simp: addrs_Node intro: fr)
      from ok walk st link frame ne True have "del_walk_ok cmp v this ?t parent st st'"
        by (simp add: del_walk_ok_def case_prod_beta)
      then show ?thesis ..
    next
      case nc: False
      have pok: "parent_ok st this (Some ?a) r" using ar at by (simp add: parent_ok_def)
      from Node.IH(2) [OF sr dr pok] obtain st' where ok: "del_walk_ok cmp v this r (Some ?a) st st'" ..
      let ?r' = "del_placed cmp v r"
      have walk: "del_walk cmp v this (ptr ?t) parent st = del_walk cmp v this (ptr r) (Some ?a) st"
        using at ne nc by (simp add: del_walk.simps [of cmp v this "Some ?a"])
      from ok have fr: "\<And>c. c \<notin> set (addrs r) \<Longrightarrow> c \<noteq> ?a \<Longrightarrow> nodes st' c = nodes st c"
        and sr': "stored (nodes st') ?r'"
        and root: "o_root (sets st' this) = o_root (sets st this)"
        and ata0: "nodes st' ?a = Some (if ptr l = ptr r then ?nd\<lparr>n_left := ptr ?r'\<rparr>
                                         else ?nd\<lparr>n_right := ptr ?r'\<rparr>)"
        using at by (auto simp: del_walk_ok_def link_updated_def)
      have ata: "nodes st' ?a = Some (?nd\<lparr>n_right := ptr ?r'\<rparr>)"
      proof (cases "ptr l = ptr r")
        case False
        with ata0 show ?thesis by simp
      next
        case True
        have "r = Nullptr"
        proof (rule ccontr)
          assume "r \<noteq> Nullptr"
          then obtain ra where "ptr r = Some ra" by (cases r) auto
          with True have "ra \<in> set (addrs l)" "ra \<in> set (addrs r)" by (auto intro: ptr_in_addrs)
          with lr show False by auto
        qed
        with True ata0 show ?thesis by simp
      qed
      have sl': "stored (nodes st') l"
      proof (rule stored_frame [OF sl], rule ballI)
        fix c assume "c \<in> set (addrs l)"
        with lr al have "c \<notin> set (addrs r)" "c \<noteq> ?a" by auto
        then show "nodes st' c = nodes st c" by (rule fr)
      qed
      have t': "del_placed cmp v ?t = Node ax l ?r'" using ne nc by simp
      have st: "stored (nodes st') (del_placed cmp v ?t)"
        unfolding t' using ata sl' sr' by simp
      have "link_updated st st' this parent ?t ?t"
        using root by (rule outer) (auto simp: addrs_Node intro: fr)
      moreover have "ptr (del_placed cmp v ?t) = ptr ?t" using ne by simp
      ultimately have link: "link_updated st st' this parent ?t (del_placed cmp v ?t)"
        by (rule link_updated_ptr [rotated])
      have frame: "\<forall>c. c \<notin> set (addrs ?t) \<and> Some c \<noteq> parent \<longrightarrow> nodes st' c = nodes st c"
        by (auto simp: addrs_Node intro: fr)
      from ok walk st link frame ne nc have "del_walk_ok cmp v this ?t parent st st'"
        by (simp add: del_walk_ok_def case_prod_beta)
      then show ?thesis ..
    qed
  qed
qed

lemma represents_empty: "represents (TreeSet_st this st) this TreeSet_empty Nullptr"
  by (simp add: represents_def TreeSet_st_def TreeSet_empty_def addrs_Nullptr)

lemma add_st_refines_frame:
  assumes "represents st this s t"
  shows "\<exists>st' t'. add_st cmp this v st = Some (fst (add cmp v s), st') \<and>
                   represents st' this (snd (add cmp v s)) t' \<and>
                   (\<forall>other. other \<noteq> this \<longrightarrow> sets st' other = sets st other) \<and>
                   (s_size s \<noteq> 0 \<longrightarrow> ptr t' = ptr t)"
proof (cases "s_size s = 0")
  case True
  let ?p = "next_addr st"
  let ?st' = "(snd (make_node v st))\<lparr>sets := (sets (snd (make_node v st)))
                (this := \<lparr>o_root = Some ?p, o_size = 1\<rparr>)\<rparr>"
  have "add_st cmp this v st = Some (fst (add cmp v s), ?st')"
    using assms True by (simp add: add_st_def add_def size_of_def represents_def make_node_def)
  moreover have "represents ?st' this (snd (add cmp v s)) (Node (?p, v) Nullptr Nullptr)"
    using True by (simp add: represents_def add_def size_of_def make_node_def addrs_Node addrs_Nullptr)
  moreover have "\<forall>other. other \<noteq> this \<longrightarrow> sets ?st' other = sets st other"
    by (simp add: make_node_def)
  ultimately show ?thesis using True by blast
next
  case False
  from assms have root: "o_root (sets st this) = ptr t" and size: "o_size (sets st this) = s_size s"
    and vals: "s_root s = values_of t" and st: "stored (nodes st) t" and d: "distinct (addrs t)"
    and b: "\<forall>a \<in> set (addrs t). a < next_addr st" by (simp_all add: represents_def)
  show ?thesis
  proof (cases "t = Nullptr")
    case True
    have "add_st cmp this v st = Some (fst (add cmp v s), st)"
      using False True root size vals
      by (simp add: add_st_def add_def size_of_def add_walk.simps)
    moreover have "snd (add cmp v s) = s"
      using False True vals by (simp add: add_def size_of_def)
    ultimately show ?thesis using assms by auto
  next
    case tn: False
    from add_walk_refines [OF st d b tn] obtain st1 where ok: "add_walk_ok cmp v t st st1" ..
    let ?b = "fst (add_loop cmp v (values_of t))"
    let ?t' = "add_placed cmp v (next_addr st) t"
    let ?st' = "if ?b then st1\<lparr>sets := (sets st1)
                   (this := (sets st1 this)\<lparr>o_size := o_size (sets st1 this) + 1\<rparr>)\<rparr> else st1"
    from ok have walk: "add_walk cmp v (ptr t) st = Some (?b, st1)"
      and s1: "stored (nodes st1) ?t'" and se: "sets st1 = sets st"
      and na: "next_addr st1 = (if ?b then Suc (next_addr st) else next_addr st)"
      by (simp_all add: add_walk_ok_def)
    have res: "add_st cmp this v st = Some (fst (add cmp v s), ?st')"
      using False walk root size vals
      by (simp add: add_st_def add_def size_of_def case_prod_beta)
    have sub: "set (addrs ?t') \<subseteq> insert (next_addr st) (set (addrs t))"
      by (rule addrs_add_placed)
    have dt: "distinct (addrs ?t')"
      using d b by (intro distinct_add_placed) auto
    have bt: "\<forall>a \<in> set (addrs ?t'). a < next_addr ?st'"
    proof
      fix a assume a: "a \<in> set (addrs ?t')"
      show "a < next_addr ?st'"
      proof (cases "a = next_addr st")
        case True
        have "?b"
        proof (rule ccontr)
          assume nb: "\<not> ?b"
          have "add_placed cmp v (next_addr st) t' = t'"
            if "\<not> fst (add_loop cmp v (values_of t'))" for t' :: "'a placed"
            using that by (induction t') (auto simp: case_prod_beta values_of_Nullptr split: if_splits)
          with nb have "?t' = t" by simp
          with a True b show False by auto
        qed
        with True na show ?thesis by simp
      next
        case False
        with a sub b have "a < next_addr st" by auto
        with na show ?thesis by simp
      qed
    qed
    have "represents ?st' this (snd (add cmp v s)) ?t'"
      using False root size vals s1 se dt bt
      by (simp add: represents_def add_def size_of_def case_prod_beta ptr_add_placed
            values_add_placed)
    moreover have "\<forall>other. other \<noteq> this \<longrightarrow> sets ?st' other = sets st other"
      using se by simp
    moreover have "ptr ?t' = ptr t" by (rule ptr_add_placed)
    ultimately show ?thesis using res by blast
  qed
qed

lemma add_st_refines:
  assumes "represents st this s t"
  shows "\<exists>st' t'. add_st cmp this v st = Some (fst (add cmp v s), st') \<and>
                   represents st' this (snd (add cmp v s)) t'"
  using add_st_refines_frame [OF assms, of cmp v] by blast

lemma del_st_refines:
  assumes "represents st this s t"
  shows "\<exists>st' t'. del_st cmp this v st = Some (fst (del cmp v s), st') \<and>
                   represents st' this (snd (del cmp v s)) t'"
proof (cases "s_size s = 0")
  case True
  with assms have "del_st cmp this v st = Some (fst (del cmp v s), st)"
    by (simp add: del_st_def del_def size_of_def represents_def)
  moreover have "snd (del cmp v s) = s" using True by (simp add: del_def size_of_def)
  ultimately show ?thesis using assms by auto
next
  case False
  from assms have root: "o_root (sets st this) = ptr t" and size: "o_size (sets st this) = s_size s"
    and vals: "s_root s = values_of t" and st: "stored (nodes st) t" and d: "distinct (addrs t)"
    and b: "\<forall>a \<in> set (addrs t). a < next_addr st" by (simp_all add: represents_def)
  have pok: "parent_ok st this None t" using root by (simp add: parent_ok_def)
  from del_walk_refines [OF st d pok] obtain st' where ok: "del_walk_ok cmp v this t None st st'" ..
  let ?t' = "del_placed cmp v t"
  have res: "del_st cmp this v st = Some (fst (del cmp v s), st')"
    using False ok root size vals
    by (simp add: del_st_def del_def size_of_def case_prod_beta del_walk_ok_def)
  have sub: "set (addrs ?t') \<subseteq> set (addrs t)" by (rule addrs_del_placed)
  have "represents st' this (snd (del cmp v s)) ?t'"
    using False ok size vals b sub distinct_del_placed [OF d, of cmp v]
    by (auto simp: represents_def del_def size_of_def case_prod_beta del_walk_ok_def
          link_updated_def values_del_placed)
  with res show ?thesis by blast
qed

lemma contains_st_refines:
  "represents st this s t \<Longrightarrow> contains_st cmp this v st = Some (contains cmp s v)"
  by (simp add: represents_def contains_st_def contains_def size_of_def contains_walk_refines)

lemma elements_st_refines:
  "represents st this s t \<Longrightarrow> elements_st st this = Some (elements s)"
  by (simp add: represents_def elements_st_def elements_from_refines elements_inorder)

lemma run_st_refines:
  "represents st this s t \<Longrightarrow>
   \<exists>st' t'. run_st cmp this ops st = Some (results cmp s ops, st') \<and>
            represents st' this (foldl (\<lambda>s op. snd (apply_op cmp op s)) s ops) t'"
proof (induction ops arbitrary: st s t)
  case Nil
  then show ?case by auto
next
  case (Cons op ops)
  have "\<exists>st1 t1. apply_op_st cmp this op st = Some (fst (apply_op cmp op s), st1) \<and>
                  represents st1 this (snd (apply_op cmp op s)) t1"
  proof (cases op)
    case (Add v)
    with add_st_refines [OF Cons.prems, of cmp v] show ?thesis by simp
  next
    case (Del v)
    with del_st_refines [OF Cons.prems, of cmp v] show ?thesis by simp
  qed
  then obtain st1 t1 where 1: "apply_op_st cmp this op st = Some (fst (apply_op cmp op s), st1)"
    and 2: "represents st1 this (snd (apply_op cmp op s)) t1" by blast
  from Cons.IH [OF 2] obtain st' t'
    where 3: "run_st cmp this ops st1 = Some (results cmp (snd (apply_op cmp op s)) ops, st')"
      and 4: "represents st' this
                (foldl (\<lambda>s op. snd (apply_op cmp op s)) (snd (apply_op cmp op s)) ops) t'"
    by blast
  from 1 3 have "run_st cmp this (op # ops) st = Some (results cmp s (op # ops), st')" by simp
  with 4 show ?case by auto
qed

lemma store_refines_tree:
  "\<exists>st'. run_st cmp this ops (TreeSet_st this st) = Some (results cmp TreeSet_empty ops, st') \<and>
          o_size (sets st' this) = size_of (run cmp ops) \<and>
          elements_st st' this = Some (elements (run cmp ops)) \<and>
          (\<forall>v. contains_st cmp this v st' = Some (contains cmp (run cmp ops) v))"
proof -
  have "represents (TreeSet_st this st) this TreeSet_empty Nullptr" by (rule represents_empty)
  from run_st_refines [OF this, of cmp ops]
  obtain st' t' where r: "run_st cmp this ops (TreeSet_st this st) = Some (results cmp TreeSet_empty ops, st')"
    and rep: "represents st' this (run cmp ops) t'" by (auto simp: run_def)
  from rep have "o_size (sets st' this) = size_of (run cmp ops)"
    by (simp add: represents_def size_of_def)
  with r rep show ?thesis
    by (auto simp: elements_st_refines contains_st_refines)
qed

lemma represents_move_construct:
  "this \<noteq> other \<Longrightarrow> represents st other s t \<Longrightarrow> represents (move_construct this other st) other s t"
  by (simp add: represents_def move_construct_def)

lemma represents_move_assign:
  "represents st other s t \<Longrightarrow> represents (move_assign this other st) other s t"
  by (simp add: represents_def move_assign_def)

lemma add_through_alias:
  assumes rep: "represents st1 other s t" and ne: "this \<noteq> other" and nz: "s_size s \<noteq> 0"
    and shares: "o_root (sets st1 this) = ptr t"
  shows "\<exists>st2. add_st cmp other v st1 = Some (fst (add cmp v s), st2) \<and>
               elements_st st2 other = Some (elements (snd (add cmp v s))) \<and>
               elements_st st2 this = Some (elements (snd (add cmp v s))) \<and>
               o_size (sets st2 this) = o_size (sets st1 this)"
proof -
  from add_st_refines_frame [OF rep, of cmp v] nz obtain st2 t'
    where a: "add_st cmp other v st1 = Some (fst (add cmp v s), st2)"
      and r: "represents st2 other (snd (add cmp v s)) t'"
      and f: "\<forall>x. x \<noteq> other \<longrightarrow> sets st2 x = sets st1 x"
      and p: "ptr t' = ptr t" by blast
  from f ne have same: "sets st2 this = sets st1 this" by simp
  from r have e: "elements_st st2 other = Some (elements (snd (add cmp v s)))"
    by (rule elements_st_refines)
  from r have "o_root (sets st2 other) = ptr t'" by (simp add: represents_def)
  with same shares p have "o_root (sets st2 this) = o_root (sets st2 other)" by simp
  then have "elements_st st2 this = elements_st st2 other" by (simp add: elements_st_def)
  with a e same show ?thesis by auto
qed

lemma represents_store_a1:
  "represents store_a1 0 \<lparr>s_root = Node 1 Nullptr Nullptr, s_size = 1\<rparr> (Node (0, 1) Nullptr Nullptr)"
  by (simp add: represents_def store_a1_def addrs_def)

text \<open>Copies. The copy constructor and the copy-assignment operator build a tree of new
  nodes with the values of the source and leave the source as it was; \<^verbatim>\<open>add\<close> and \<^verbatim>\<open>del\<close>
  calls on an object that owns its nodes keep the size at the length of the traversal.\<close>

lemma values_copy_placed: "values_of (copy_placed p t) = values_of t"
  by (induction t arbitrary: p) simp_all

lemma ptr_copy_placed: "ptr (copy_placed p t) = (if t = Nullptr then None else Some p)"
  by (cases t) simp_all


lemma addrs_copy_placed_bounds:
  "a \<in> set (addrs (copy_placed p t)) \<Longrightarrow> p \<le> a \<and> a < p + node_count t"
  by (induction t arbitrary: p) (fastforce simp: addrs_Node addrs_Nullptr)+

lemma distinct_copy_placed: "distinct (addrs (copy_placed p t))"
proof (induction t arbitrary: p)
  case Nullptr
  show ?case by (simp add: addrs_Nullptr)
next
  case (Node ax l r)
  have "\<And>a. a \<in> set (addrs (copy_placed (Suc p) l)) \<Longrightarrow> p < a \<and> a < Suc p + node_count l"
    using addrs_copy_placed_bounds [of _ "Suc p" l] by fastforce
  moreover have "\<And>a. a \<in> set (addrs (copy_placed (Suc p + node_count l) r)) \<Longrightarrow> Suc p + node_count l \<le> a"
    using addrs_copy_placed_bounds [of _ "Suc p + node_count l" r] by fastforce
  ultimately show ?case using Node.IH
    by (fastforce simp: addrs_Node)
qed

lemma node_count_values_of: "node_count (values_of t) = node_count t"
  by (induction t) simp_all

lemma copy_node_refines:
  "stored (nodes st) t \<Longrightarrow> t \<noteq> Nullptr \<Longrightarrow> \<forall>a \<in> set (addrs t). a < next_addr st \<Longrightarrow>
   \<exists>st'. copy_node dflt (ptr t) st = Some (next_addr st, st') \<and>
         stored (nodes st') (copy_placed (next_addr st) t) \<and>
         sets st' = sets st \<and> next_addr st' = next_addr st + node_count t \<and>
         (\<forall>b. b < next_addr st \<longrightarrow> nodes st' b = nodes st b)"
proof (induction t arbitrary: st)
  case Nullptr
  then show ?case by simp
next
  case (Node ax l r)
  let ?p = "next_addr st"
  let ?st0 = "st\<lparr>nodes := (nodes st)(next_addr st \<mapsto> \<lparr>n_value = dflt, n_left = None, n_right = None\<rparr>),
                 next_addr := Suc (next_addr st)\<rparr>"
  let ?nd = "\<lparr>n_value = snd ax, n_left = ptr l, n_right = ptr r\<rparr>"
  from Node.prems have here: "nodes st (fst ax) = Some ?nd" and sl: "stored (nodes st) l"
    and sr: "stored (nodes st) r" by simp_all
  from Node.prems(3) have ba: "fst ax < ?p" and bl: "\<forall>a \<in> set (addrs l). a < ?p"
    and br: "\<forall>a \<in> set (addrs r). a < ?p" by (simp_all add: addrs_Node)
  have n0: "next_addr ?st0 = Suc ?p" and s0: "sets ?st0 = sets st"
    and f0: "\<forall>b. b < ?p \<longrightarrow> nodes ?st0 b = nodes st b"
    by simp_all
  have here0: "nodes ?st0 (fst ax) = Some ?nd" using here ba f0 by simp
  have sl0: "stored (nodes ?st0) l"
  proof (rule stored_frame [OF sl])
    show "\<forall>a \<in> set (addrs l). nodes ?st0 a = nodes st a" using bl by auto
  qed
  let ?L = "copy_placed (Suc ?p) l"
  let ?left = "case ptr l of None \<Rightarrow> Some (None, ?st0)
               | Some a \<Rightarrow> Option.bind (copy_node dflt (Some a) ?st0) (\<lambda>(q, st1). Some (Some q, st1))"
  have "\<exists>st1. ?left = Some (ptr ?L, st1) \<and> stored (nodes st1) ?L \<and> sets st1 = sets st \<and>
              next_addr st1 = Suc ?p + node_count l \<and>
              (\<forall>b. b < Suc ?p \<longrightarrow> nodes st1 b = nodes ?st0 b)"
  proof (cases "l = Nullptr")
    case True
    then show ?thesis using n0 s0 by simp
  next
    case False
    from bl n0 have "\<forall>a \<in> set (addrs l). a < next_addr ?st0" by auto
    from Node.IH(1) [OF sl0 False this] obtain st1
      where "copy_node dflt (ptr l) ?st0 = Some (next_addr ?st0, st1)"
        and "stored (nodes st1) (copy_placed (next_addr ?st0) l)"
        and "sets st1 = sets ?st0" and "next_addr st1 = next_addr ?st0 + node_count l"
        and "\<forall>b. b < next_addr ?st0 \<longrightarrow> nodes st1 b = nodes ?st0 b" by blast
    then show ?thesis using False n0 s0 by (cases l) auto
  qed
  then obtain st1 where l1: "?left = Some (ptr ?L, st1)" and l2: "stored (nodes st1) ?L"
    and l3: "sets st1 = sets st" and l4: "next_addr st1 = Suc ?p + node_count l"
    and l5: "\<forall>b. b < Suc ?p \<longrightarrow> nodes st1 b = nodes ?st0 b" by blast
  have f1: "\<forall>b. b < ?p \<longrightarrow> nodes st1 b = nodes st b" using l5 f0 by simp
  have sr1: "stored (nodes st1) r"
  proof (rule stored_frame [OF sr])
    show "\<forall>a \<in> set (addrs r). nodes st1 a = nodes st a" using br f1 by auto
  qed
  let ?q = "Suc ?p + node_count l"
  let ?R = "copy_placed ?q r"
  let ?right = "case ptr r of None \<Rightarrow> Some (None, st1)
               | Some a \<Rightarrow> Option.bind (copy_node dflt (Some a) st1) (\<lambda>(q, st2). Some (Some q, st2))"
  have "\<exists>st2. ?right = Some (ptr ?R, st2) \<and> stored (nodes st2) ?R \<and> sets st2 = sets st \<and>
              next_addr st2 = ?q + node_count r \<and>
              (\<forall>b. b < ?q \<longrightarrow> nodes st2 b = nodes st1 b)"
  proof (cases "r = Nullptr")
    case True
    then show ?thesis using l3 l4 by simp
  next
    case False
    from br l4 have "\<forall>a \<in> set (addrs r). a < next_addr st1" by auto
    from Node.IH(2) [OF sr1 False this] obtain st2
      where "copy_node dflt (ptr r) st1 = Some (next_addr st1, st2)"
        and "stored (nodes st2) (copy_placed (next_addr st1) r)"
        and "sets st2 = sets st1" and "next_addr st2 = next_addr st1 + node_count r"
        and "\<forall>b. b < next_addr st1 \<longrightarrow> nodes st2 b = nodes st1 b" by blast
    then show ?thesis using False l3 l4 by (cases r) auto
  qed
  then obtain st2 where r1: "?right = Some (ptr ?R, st2)" and r2: "stored (nodes st2) ?R"
    and r3: "sets st2 = sets st" and r4: "next_addr st2 = ?q + node_count r"
    and r5: "\<forall>b. b < ?q \<longrightarrow> nodes st2 b = nodes st1 b" by blast
  let ?new = "\<lparr>n_value = snd ax, n_left = ptr ?L, n_right = ptr ?R\<rparr>"
  let ?st' = "st2\<lparr>nodes := (nodes st2)(?p \<mapsto> ?new)\<rparr>"
  have res: "copy_node dflt (ptr (Node ax l r)) st = Some (?p, ?st')"
  proof -
    have mk: "make_node dflt st = (?p, ?st0)" by (simp add: make_node_def)
    show ?thesis
      using here0 l1 r1
      by (simp add: copy_node.simps [of dflt "Some (fst ax)" st] mk)
  qed
  have L2: "stored (nodes st2) ?L"
  proof (rule stored_frame [OF l2])
    show "\<forall>a \<in> set (addrs ?L). nodes st2 a = nodes st1 a"
      using addrs_copy_placed_bounds [of _ "Suc ?p" l] r5 by auto
  qed
  have notL: "?p \<notin> set (addrs ?L)" using addrs_copy_placed_bounds [of ?p "Suc ?p" l] by auto
  have notR: "?p \<notin> set (addrs ?R)" using addrs_copy_placed_bounds [of ?p ?q r] by auto
  have L': "stored (nodes ?st') ?L"
  proof (rule stored_frame [OF L2])
    show "\<forall>a \<in> set (addrs ?L). nodes ?st' a = nodes st2 a" using notL by auto
  qed
  have R': "stored (nodes ?st') ?R"
  proof (rule stored_frame [OF r2])
    show "\<forall>a \<in> set (addrs ?R). nodes ?st' a = nodes st2 a" using notR by auto
  qed
  have st: "stored (nodes ?st') (copy_placed ?p (Node ax l r))"
    using L' R' by simp
  have fr: "\<forall>b. b < ?p \<longrightarrow> nodes ?st' b = nodes st b" using r5 f1 by simp
  show ?case
  proof (intro exI conjI)
    show "copy_node dflt (ptr (Node ax l r)) st = Some (?p, ?st')" by (rule res)
    show "stored (nodes ?st') (copy_placed ?p (Node ax l r))" by (rule st)
    show "sets ?st' = sets st" using r3 by simp
    show "next_addr ?st' = ?p + node_count (Node ax l r)" using r4 by simp
    show "\<forall>b. b < ?p \<longrightarrow> nodes ?st' b = nodes st b" by (rule fr)
  qed
qed

lemma copy_from_refines:
  assumes rep: "represents st other s t" and cnt: "counted s"
  shows "\<exists>st'. copy_from dflt this other st = Some st' \<and>
               represents st' this s (copy_placed (next_addr st) t) \<and>
               (this \<noteq> other \<longrightarrow> represents st' other s t)"
proof -
  from rep have root: "o_root (sets st other) = ptr t" and size: "o_size (sets st other) = s_size s"
    and vals: "s_root s = values_of t" and sto: "stored (nodes st) t" and d: "distinct (addrs t)"
    and b: "\<forall>a \<in> set (addrs t). a < next_addr st" by (simp_all add: represents_def)
  from cnt vals have sz: "s_size s = int (node_count t)"
    by (simp add: counted_def node_count_values_of)
  show ?thesis
  proof (cases "t = Nullptr")
    case True
    with sz size root vals rep show ?thesis
      by (auto simp: copy_from_def represents_def addrs_Nullptr)
  next
    case False
    then have pos: "0 < o_size (sets st other)" using sz size by (cases t) simp_all
    from copy_node_refines [OF sto False b, of dflt] obtain st1
      where c: "copy_node dflt (ptr t) st = Some (next_addr st, st1)"
        and s1: "stored (nodes st1) (copy_placed (next_addr st) t)"
        and e1: "sets st1 = sets st" and n1: "next_addr st1 = next_addr st + node_count t"
        and f1: "\<forall>b. b < next_addr st \<longrightarrow> nodes st1 b = nodes st b" by blast
    let ?st' = "st1\<lparr>sets := (sets st1)(this := \<lparr>o_root = Some (next_addr st),
                                                o_size = o_size (sets st other)\<rparr>)\<rparr>"
    have res: "copy_from dflt this other st = Some ?st'"
      using pos c root by (simp add: copy_from_def)
    have r1: "represents ?st' this s (copy_placed (next_addr st) t)"
      using False size vals s1 n1 addrs_copy_placed_bounds [of _ "next_addr st" t]
      by (auto simp: represents_def ptr_copy_placed values_copy_placed distinct_copy_placed)
    have "stored (nodes st1) t"
    proof (rule stored_frame [OF sto])
      show "\<forall>a \<in> set (addrs t). nodes st1 a = nodes st a" using b f1 by auto
    qed
    then have r2: "this \<noteq> other \<longrightarrow> represents ?st' other s t"
      using root size vals d b e1 n1 by (auto simp: represents_def)
    from res r1 r2 show ?thesis by blast
  qed
qed


lemma copy_construct_refines:
  "represents st other s t \<Longrightarrow> counted s \<Longrightarrow>
   \<exists>st' t'. copy_construct dflt this other st = Some st' \<and> represents st' this s t' \<and>
            (this \<noteq> other \<longrightarrow> represents st' other s t)"
  using copy_from_refines [of st other s t dflt this] by (auto simp: copy_construct_def)

lemma copy_assign_refines:
  "represents st other s t \<Longrightarrow> counted s \<Longrightarrow>
   \<exists>st' t'. copy_assign dflt this other st = Some st' \<and> represents st' this s t' \<and>
            represents st' other s t"
  using copy_from_refines [of st other s t dflt this] by (auto simp: copy_assign_def)

lemma counted_ops: "counted s \<Longrightarrow> counted (foldl (\<lambda>s op. snd (apply_op cmp op s)) s ops)"
proof (induction ops arbitrary: s)
  case Nil
  then show ?case by simp
next
  case (Cons op ops)
  have "counted (snd (apply_op cmp op s))"
    using Cons.prems by (cases op) (simp_all add: counted_add counted_del)
  from Cons.IH [OF this] show ?case by simp
qed

lemma counted_length: "counted s \<Longrightarrow> s_size s = int (length (elements s))"
  by (simp add: counted_def elements_inorder length_inorder)

lemma size_counts_represented:
  assumes rep: "represents st this s t" and cnt: "counted s"
  shows "\<exists>st' vs. run_st cmp this ops st = Some (results cmp s ops, st') \<and>
                  elements_st st' this = Some vs \<and> o_size (sets st' this) = int (length vs)"
proof -
  let ?s' = "foldl (\<lambda>s op. snd (apply_op cmp op s)) s ops"
  from run_st_refines [OF rep, of cmp ops] obtain st' t'
    where r: "run_st cmp this ops st = Some (results cmp s ops, st')"
      and rep': "represents st' this ?s' t'" by blast
  from rep' have e: "elements_st st' this = Some (elements ?s')" by (rule elements_st_refines)
  from rep' have "o_size (sets st' this) = s_size ?s'" by (simp add: represents_def)
  also have "\<dots> = int (length (elements ?s'))" using counted_ops [OF cnt] by (rule counted_length)
  finally show ?thesis using r e by blast
qed

section \<open>The ordering invariant\<close>

text \<open>
  C1 (as amended). After every sequence of \<^verbatim>\<open>add\<close> and \<^verbatim>\<open>del\<close> calls on a set that starts
  empty, a traversal from \<^verbatim>\<open>begin()\<close> to \<^verbatim>\<open>end()\<close> yields no value twice. When the
  comparator is a strict total order the values come in strictly increasing order under
  it. For a comparator that is only a strict weak order they come in an order the
  comparator never contradicts: no value is followed by one that the comparator puts
  before it.
\<close>

theorem inorder_traversal_ordered:
  "(strict_total_order cmp \<longrightarrow>
      sorted_wrt cmp (elements (run cmp ops)) \<and> distinct (elements (run cmp ops))) \<and>
   (strict_weak_order cmp \<longrightarrow>
      sorted_wrt (\<lambda>a b. a \<noteq> b \<and> \<not> cmp b a) (elements (run cmp ops)) \<and>
      distinct (elements (run cmp ops)))"
proof (intro conjI impI)
  assume sto: "strict_total_order cmp"
  then have "well_formed cmp (run cmp ops)" by (simp add: well_formed_run sto_swo)
  then show "sorted_wrt cmp (elements (run cmp ops))"
    using search_tree_strictly_sorted [OF sto] by (simp add: well_formed_def elements_inorder)
  from \<open>well_formed cmp (run cmp ops)\<close> show "distinct (elements (run cmp ops))" by (rule well_formed_distinct)
next
  assume swo: "strict_weak_order cmp"
  then have w: "well_formed cmp (run cmp ops)" by (simp add: well_formed_run)
  then show "sorted_wrt (\<lambda>a b. a \<noteq> b \<and> \<not> cmp b a) (elements (run cmp ops))"
    using search_tree_weakly_sorted [OF swo] by (simp add: well_formed_def elements_inorder)
  from w show "distinct (elements (run cmp ops))" by (rule well_formed_distinct)
qed

text \<open>The set built by \<^verbatim>\<open>add(3); add(1); add(2); del(3); add(5);\<close> under \<^verbatim>\<open>std::less<int>\<close>,
  and a set of strings ordered by length.\<close>

theorem inorder_traversal_ordered_witness:
  "strict_total_order ((<) :: int \<Rightarrow> int \<Rightarrow> bool) \<and>
   elements (run (<) [Add (3::int), Add 1, Add 2, Del 3, Add 5]) = [1, 2, 5] \<and>
   sorted_wrt (<) (elements (run (<) [Add (3::int), Add 1, Add 2, Del 3, Add 5])) \<and>
   distinct (elements (run (<) [Add (3::int), Add 1, Add 2, Del 3, Add 5])) \<and>
   strict_weak_order shorter \<and>
   sorted_wrt (\<lambda>a b. a \<noteq> b \<and> \<not> shorter b a)
     (elements (run shorter [Add ''bb'', Add ''a'', Add ''b'', Del ''bb'', Add ''ccc''])) \<and>
   distinct (elements (run shorter [Add ''bb'', Add ''a'', Add ''b'', Del ''bb'', Add ''ccc'']))"
  using inorder_traversal_ordered
          [of "(<) :: int \<Rightarrow> int \<Rightarrow> bool" "[Add 3, Add 1, Add 2, Del 3, Add 5]"]
        inorder_traversal_ordered
          [of shorter "[Add ''bb'', Add ''a'', Add ''b'', Del ''bb'', Add ''ccc'']"]
        sto_less swo_shorter
  by (simp add: run_eval)

text \<open>
  C1 as stated fails for a strict weak order that is not total. \<^verbatim>\<open>add\<close> rejects a value
  only when it is \<^verbatim>\<open>==\<close> to a node's value; a different value that the comparator holds
  equivalent goes to the right. With strings ordered by length, \<^verbatim>\<open>add("a"); add("b");\<close>
  gives the traversal \<open>a, b\<close>, which is not strictly increasing under the comparator.
\<close>

theorem inorder_traversal_weak_order_counterexample:
  "strict_weak_order shorter \<and>
   elements (run shorter [Add ''a'', Add ''b'']) = [''a'', ''b''] \<and>
   \<not> sorted_wrt shorter (elements (run shorter [Add ''a'', Add ''b'']))"
  using swo_shorter by (simp add: run_eval shorter_def)

section \<open>add and contains\<close>

text \<open>
  C2 (as amended). For every set built by \<^verbatim>\<open>add\<close> and \<^verbatim>\<open>del\<close> calls and every value
  \<open>v\<close>: \<^verbatim>\<open>add(v)\<close> returns true exactly when no element equal to \<open>v\<close> (by \<^verbatim>\<open>==\<close>) is in
  the set; it then inserts \<open>v\<close> and the size grows by one. In either case \<^verbatim>\<open>contains(v)\<close>
  holds afterwards. When an equal element is present \<^verbatim>\<open>add(v)\<close> returns false and
  leaves the set as it was. Under a strict total order, an element equal to \<open>v\<close> is the
  same as an element equivalent to \<open>v\<close> under the comparator.
\<close>

theorem add_contains_duality:
  "strict_weak_order cmp \<Longrightarrow> s = run cmp ops \<Longrightarrow>
   (fst (add cmp v s) \<longleftrightarrow> v \<notin> set (elements s)) \<and>
   contains cmp (snd (add cmp v s)) v \<and>
   (v \<notin> set (elements s) \<longrightarrow>
      set (elements (snd (add cmp v s))) = insert v (set (elements s)) \<and>
      size_of (snd (add cmp v s)) = size_of s + 1) \<and>
   (v \<in> set (elements s) \<longrightarrow> add cmp v s = (False, s)) \<and>
   (strict_total_order cmp \<longrightarrow>
      (v \<in> set (elements s) \<longleftrightarrow> (\<exists>e \<in> set (elements s). \<not> cmp v e \<and> \<not> cmp e v)))"
proof -
  assume swo: "strict_weak_order cmp" and s: "s = run cmp ops"
  then have w: "well_formed cmp s" by (simp add: well_formed_run)
  have 1: "fst (add cmp v s) \<longleftrightarrow> v \<notin> set (elements s)" using w by (rule add_result)
  have 2: "contains cmp (snd (add cmp v s)) v"
    using w by (simp add: contains_iff well_formed_add add_set)
  have 3: "set (elements (snd (add cmp v s))) = insert v (set (elements s))"
    using w by (rule add_set)
  have 4: "v \<notin> set (elements s) \<longrightarrow> size_of (snd (add cmp v s)) = size_of s + 1"
    using w by (simp add: add_size)
  have 5: "v \<in> set (elements s) \<longrightarrow> add cmp v s = (False, s)"
    using w by (simp add: add_present)
  have 6: "strict_total_order cmp \<longrightarrow>
      (v \<in> set (elements s) \<longleftrightarrow> (\<exists>e \<in> set (elements s). \<not> cmp v e \<and> \<not> cmp e v))"
  proof
    assume "strict_total_order cmp"
    then have tot: "a \<noteq> b \<Longrightarrow> cmp a b \<or> cmp b a" for a b
      by (simp add: strict_total_order_def)
    show "v \<in> set (elements s) \<longleftrightarrow> (\<exists>e \<in> set (elements s). \<not> cmp v e \<and> \<not> cmp e v)"
    proof
      assume "v \<in> set (elements s)"
      with swo_irrefl [OF swo, of v] show "\<exists>e \<in> set (elements s). \<not> cmp v e \<and> \<not> cmp e v"
        by (intro bexI [of _ v]) simp_all
    next
      assume "\<exists>e \<in> set (elements s). \<not> cmp v e \<and> \<not> cmp e v"
      then obtain e where e: "e \<in> set (elements s)" "\<not> cmp v e" "\<not> cmp e v" by blast
      with tot [of v e] have "v = e" by blast
      with e show "v \<in> set (elements s)" by simp
    qed
  qed
  from 1 2 3 4 5 6 show ?thesis by blast
qed

theorem add_contains_duality_witness:
  "strict_weak_order ((<) :: int \<Rightarrow> int \<Rightarrow> bool) \<and>
   elements (run (<) [Add (2::int), Add 1]) = [1, 2] \<and>
   fst (add (<) 3 (run (<) [Add (2::int), Add 1])) \<and>
   contains (<) (snd (add (<) 3 (run (<) [Add (2::int), Add 1]))) 3 \<and>
   size_of (snd (add (<) 3 (run (<) [Add (2::int), Add 1]))) = 3 \<and>
   add (<) 1 (run (<) [Add (2::int), Add 1]) = (False, run (<) [Add (2::int), Add 1])"
  using add_contains_duality [of "(<) :: int \<Rightarrow> int \<Rightarrow> bool" "run (<) [Add 2, Add 1]" "[Add 2, Add 1]" 3]
        add_contains_duality [of "(<) :: int \<Rightarrow> int \<Rightarrow> bool" "run (<) [Add 2, Add 1]" "[Add 2, Add 1]" 1]
        swo_less
  by (simp add: run_eval)

text \<open>
  C2 as stated fails: with strings ordered by length the set \<open>{a}\<close> holds an element
  equivalent to \<open>b\<close> under the comparator, and \<^verbatim>\<open>add("b")\<close> still returns true and the
  set grows.
\<close>

theorem add_equivalent_value_counterexample:
  "strict_weak_order shorter \<and>
   ''a'' \<in> set (elements (run shorter [Add ''a''])) \<and>
   \<not> shorter ''b'' ''a'' \<and> \<not> shorter ''a'' ''b'' \<and>
   fst (add shorter ''b'' (run shorter [Add ''a''])) \<and>
   size_of (snd (add shorter ''b'' (run shorter [Add ''a'']))) = size_of (run shorter [Add ''a'']) + 1 \<and>
   elements (snd (add shorter ''b'' (run shorter [Add ''a'']))) = [''a'', ''b'']"
  using swo_shorter by (simp add: run_eval shorter_def)

section \<open>del and contains\<close>

text \<open>
  C3. For every set built by \<^verbatim>\<open>add\<close> and \<^verbatim>\<open>del\<close> calls under a strict weak order, and
  every value \<open>v\<close>: \<^verbatim>\<open>del(v)\<close> returns true exactly when \<^verbatim>\<open>contains(v)\<close> held before the
  call. On success \<^verbatim>\<open>contains(v)\<close> is false afterwards, the size is smaller by exactly
  one, and a second \<^verbatim>\<open>del(v)\<close> returns false and changes nothing. On failure \<^verbatim>\<open>del(v)\<close>
  returns false and the root and the size are as before.
\<close>

theorem del_contains_duality:
  "strict_weak_order cmp \<Longrightarrow> s = run cmp ops \<Longrightarrow>
   (fst (del cmp v s) \<longleftrightarrow> contains cmp s v) \<and>
   (contains cmp s v \<longrightarrow>
      \<not> contains cmp (snd (del cmp v s)) v \<and>
      size_of (snd (del cmp v s)) = size_of s - 1 \<and>
      del cmp v (snd (del cmp v s)) = (False, snd (del cmp v s))) \<and>
   (\<not> contains cmp s v \<longrightarrow> del cmp v s = (False, s))"
proof -
  assume swo: "strict_weak_order cmp" and s: "s = run cmp ops"
  then have w: "well_formed cmp s" by (simp add: well_formed_run)
  have w': "well_formed cmp (snd (del cmp v s))" using swo w by (rule well_formed_del)
  have gone: "\<not> contains cmp (snd (del cmp v s)) v"
    using w w' well_formed_distinct [OF w] by (simp add: contains_iff del_elements)
  have 1: "fst (del cmp v s) \<longleftrightarrow> contains cmp s v" by (rule del_result)
  have 2: "contains cmp s v \<longrightarrow> size_of (snd (del cmp v s)) = size_of s - 1"
    using w by (simp add: del_size)
  have 3: "del cmp v (snd (del cmp v s)) = (False, snd (del cmp v s))"
    using gone by (rule del_absent)
  have 4: "\<not> contains cmp s v \<longrightarrow> del cmp v s = (False, s)"
    by (simp add: del_absent)
  from gone 1 2 3 4 show ?thesis by blast
qed

theorem del_contains_duality_witness:
  "strict_weak_order ((<) :: int \<Rightarrow> int \<Rightarrow> bool) \<and>
   contains (<) (run (<) [Add (2::int), Add 1, Add 3]) 2 \<and>
   fst (del (<) 2 (run (<) [Add (2::int), Add 1, Add 3])) \<and>
   \<not> contains (<) (snd (del (<) 2 (run (<) [Add (2::int), Add 1, Add 3]))) 2 \<and>
   size_of (snd (del (<) 2 (run (<) [Add (2::int), Add 1, Add 3]))) = 2 \<and>
   \<not> contains (<) (run (<) [Add (2::int), Add 1, Add 3]) 7 \<and>
   del (<) 7 (run (<) [Add (2::int), Add 1, Add 3]) = (False, run (<) [Add (2::int), Add 1, Add 3])"
  using del_contains_duality [of "(<) :: int \<Rightarrow> int \<Rightarrow> bool" "run (<) [Add 2, Add 1, Add 3]" "[Add 2, Add 1, Add 3]" 2]
        del_contains_duality [of "(<) :: int \<Rightarrow> int \<Rightarrow> bool" "run (<) [Add 2, Add 1, Add 3]" "[Add 2, Add 1, Add 3]" 7]
        swo_less
  by (simp add: run_eval)

section \<open>Size\<close>

text \<open>
  Where the size is right. For every set built by \<^verbatim>\<open>add\<close> and \<^verbatim>\<open>del\<close> calls from the empty
  set, and for every set that the list constructor, \<^verbatim>\<open>plus\<close>, \<^verbatim>\<open>intersect\<close> or \<^verbatim>\<open>minus\<close>
  returns, \<^verbatim>\<open>size()\<close> is the number of elements that a traversal from \<^verbatim>\<open>begin()\<close> to
  \<^verbatim>\<open>end()\<close> yields, for every comparator. The first part states it on the store: in any
  store, an object constructed empty and then changed by \<^verbatim>\<open>add\<close> and \<^verbatim>\<open>del\<close> calls on it
  alone completes every call, and its size is the length of its traversal.
\<close>

lemma size_counts_traversal:
  "(\<exists>st' vs. run_st cmp this ops (TreeSet_st this st) = Some (results cmp TreeSet_empty ops, st') \<and>
             elements_st st' this = Some vs \<and> o_size (sets st' this) = int (length vs)) \<and>
   size_of (run cmp ops) = int (length (elements (run cmp ops))) \<and>
   size_of (TreeSet_of_list cmp xs) = int (length (elements (TreeSet_of_list cmp xs))) \<and>
   size_of (plus_set cmp a b) = int (length (elements (plus_set cmp a b))) \<and>
   size_of (intersect cmp a b) = int (length (elements (intersect cmp a b))) \<and>
   size_of (minus_set cmp a b) = int (length (elements (minus_set cmp a b)))"
proof -
  from store_refines_tree [of cmp this ops st] obtain st'
    where "run_st cmp this ops (TreeSet_st this st) = Some (results cmp TreeSet_empty ops, st')"
      and "o_size (sets st' this) = size_of (run cmp ops)"
      and "elements_st st' this = Some (elements (run cmp ops))" by blast
  then have "\<exists>st' vs. run_st cmp this ops (TreeSet_st this st)
                         = Some (results cmp TreeSet_empty ops, st') \<and>
                       elements_st st' this = Some vs \<and> o_size (sets st' this) = int (length vs)"
    by (auto simp: size_is_traversal_length)
  then show ?thesis
    by (simp add: TreeSet_of_list_add_list plus_list intersect_list minus_list
          run_Adds_wf_free size_is_traversal_length)
qed

text \<open>
  The same for copies: a set built by \<^verbatim>\<open>add\<close> and \<^verbatim>\<open>del\<close> calls is copied into the object
  \<open>this\<close> by the copy constructor or by the copy-assignment operator; the copy has the
  elements of the source and their number as its size, and it keeps size and traversal
  in step under further \<^verbatim>\<open>add\<close> and \<^verbatim>\<open>del\<close> calls.
\<close>

lemma size_counts_copy:
  "\<exists>st1 st2 st3 st4 st5 ws.
     run_st cmp other ops (TreeSet_st other st) = Some (results cmp TreeSet_empty ops, st1) \<and>
     copy_construct dflt this other st1 = Some st2 \<and>
     elements_st st2 this = Some (elements (run cmp ops)) \<and>
     o_size (sets st2 this) = int (length (elements (run cmp ops))) \<and>
     run_st cmp this ops2 st2 = Some (results cmp (run cmp ops) ops2, st3) \<and>
     elements_st st3 this = Some ws \<and> o_size (sets st3 this) = int (length ws) \<and>
     copy_assign dflt this other st1 = Some st4 \<and>
     elements_st st4 this = Some (elements (run cmp ops)) \<and>
     o_size (sets st4 this) = int (length (elements (run cmp ops))) \<and>
     run_st cmp this ops2 st4 = Some (results cmp (run cmp ops) ops2, st5) \<and>
     elements_st st5 this = Some ws \<and> o_size (sets st5 this) = int (length ws)"
proof -
  let ?s = "run cmp ops"
  let ?s' = "foldl (\<lambda>s op. snd (apply_op cmp op s)) ?s ops2"
  have cnt: "counted ?s" by (rule counted_run)
  have len: "s_size ?s = int (length (elements ?s))" using cnt by (rule counted_length)
  have len': "s_size ?s' = int (length (elements ?s'))"
    using counted_ops [OF cnt] by (rule counted_length)
  have "represents (TreeSet_st other st) other TreeSet_empty Nullptr" by (rule represents_empty)
  from run_st_refines [OF this, of cmp ops] obtain st1 t1
    where 1: "run_st cmp other ops (TreeSet_st other st) = Some (results cmp TreeSet_empty ops, st1)"
      and rep1: "represents st1 other ?s t1" by (auto simp: run_def)
  from copy_construct_refines [OF rep1 cnt, of dflt this] obtain st2 t2
    where 2: "copy_construct dflt this other st1 = Some st2" and rep2: "represents st2 this ?s t2"
    by blast
  from run_st_refines [OF rep2, of cmp ops2] obtain st3 t3
    where 3: "run_st cmp this ops2 st2 = Some (results cmp ?s ops2, st3)"
      and rep3: "represents st3 this ?s' t3" by blast
  from copy_assign_refines [OF rep1 cnt, of dflt this] obtain st4 t4
    where 4: "copy_assign dflt this other st1 = Some st4" and rep4: "represents st4 this ?s t4"
    by blast
  from run_st_refines [OF rep4, of cmp ops2] obtain st5 t5
    where 5: "run_st cmp this ops2 st4 = Some (results cmp ?s ops2, st5)"
      and rep5: "represents st5 this ?s' t5" by blast
  have e2: "elements_st st2 this = Some (elements ?s)" using rep2 by (rule elements_st_refines)
  have e3: "elements_st st3 this = Some (elements ?s')" using rep3 by (rule elements_st_refines)
  have e4: "elements_st st4 this = Some (elements ?s)" using rep4 by (rule elements_st_refines)
  have e5: "elements_st st5 this = Some (elements ?s')" using rep5 by (rule elements_st_refines)
  have z2: "o_size (sets st2 this) = int (length (elements ?s))"
    using rep2 len by (simp add: represents_def)
  have z3: "o_size (sets st3 this) = int (length (elements ?s'))"
    using rep3 len' by (simp add: represents_def)
  have z4: "o_size (sets st4 this) = int (length (elements ?s))"
    using rep4 len by (simp add: represents_def)
  have z5: "o_size (sets st5 this) = int (length (elements ?s'))"
    using rep5 len' by (simp add: represents_def)
  from 1 2 3 4 5 e2 e3 e4 e5 z2 z3 z4 z5 show ?thesis by blast
qed

text \<open>
  C4. \<^verbatim>\<open>size()\<close>, documented as returning the number of elements in the set, is wrong
  for a set that shares its nodes with another one after a move. After
  \<^verbatim>\<open>TreeSet<int> a; a.add(1); TreeSet<int> b(std::move(a)); a.add(2);\<close> the new node hangs
  below the node that \<open>b\<close> points to as well, and only the size of \<open>a\<close> has grown:
  \<^verbatim>\<open>b.size()\<close> is 1, while a traversal of \<open>b\<close> yields the two elements 1 and 2 and
  \<^verbatim>\<open>b.contains(2)\<close> is true. Here \<open>a\<close> is the object 0 and \<open>b\<close> the object 1 of a store that
  starts empty.
\<close>

theorem size_stale_after_move:
  "(case add_st (<) 0 (1::int) (TreeSet_st 0 empty_store) of
      None \<Rightarrow> False
    | Some (added1, st1) \<Rightarrow>
        (case add_st (<) 0 2 (move_construct 1 0 st1) of
           None \<Rightarrow> False
         | Some (added2, st2) \<Rightarrow>
             added1 \<and> added2 \<and>
             o_size (sets st2 1) = 1 \<and>
             elements_st st2 1 = Some [1, 2] \<and>
             contains_st (<) 1 2 st2 = Some True \<and>
             o_size (sets st2 0) = 2 \<and> elements_st st2 0 = Some [1, 2]))"
  by (simp add: store_eval contains_st_def contains_walk.simps)

section \<open>Equality of sets\<close>

text \<open>
  C7. Two sets are equal under \<^verbatim>\<open>operator==\<close> exactly when their traversals yield the
  same sequence of values. Hence the sets built by the list constructor from two
  lists of the same values, in any order and with any repetitions, are equal, under a
  strict weak order that orders any two different values of the list (the values are
  without duplicates for the comparator; under a total order any values are).
\<close>

theorem equal_by_traversal:
  "(equal_set s rhs \<longleftrightarrow> elements s = elements rhs) \<and>
   (strict_weak_order cmp \<and> set xs = set ys \<and>
    (\<forall>a \<in> set xs. \<forall>b \<in> set xs. a = b \<or> cmp a b \<or> cmp b a)
    \<longrightarrow> equal_set (TreeSet_of_list cmp xs) (TreeSet_of_list cmp ys))"
proof (intro conjI impI)
  show "equal_set s rhs \<longleftrightarrow> elements s = elements rhs" by (rule equal_iff)
next
  assume a: "strict_weak_order cmp \<and> set xs = set ys \<and>
    (\<forall>a \<in> set xs. \<forall>b \<in> set xs. a = b \<or> cmp a b \<or> cmp b a)"
  then have swo: "strict_weak_order cmp" and eq: "set xs = set ys"
    and cx: "\<forall>a \<in> set xs. \<forall>b \<in> set xs. a = b \<or> cmp a b \<or> cmp b a" by simp_all
  from cx eq have cy: "\<forall>a \<in> set ys. \<forall>b \<in> set ys. a = b \<or> cmp a b \<or> cmp b a" by simp
  have "elements (TreeSet_of_list cmp xs) = elements (TreeSet_of_list cmp ys)"
  proof (rule sorted_wrt_unique [of cmp])
    show "\<not> cmp a a" for a using swo by (rule swo_irrefl)
    show "cmp a b \<Longrightarrow> \<not> cmp b a" for a b using swo by (rule swo_asym)
    show "sorted_wrt cmp (elements (TreeSet_of_list cmp xs))"
      using swo cx by (rule of_list_elements_sorted)
    show "sorted_wrt cmp (elements (TreeSet_of_list cmp ys))"
      using swo cy by (rule of_list_elements_sorted)
    show "set (elements (TreeSet_of_list cmp xs)) = set (elements (TreeSet_of_list cmp ys))"
      using of_list_elements_sorted(2) [OF swo cx] of_list_elements_sorted(2) [OF swo cy] eq
      by simp
  qed
  then show "equal_set (TreeSet_of_list cmp xs) (TreeSet_of_list cmp ys)" by (simp add: equal_iff)
qed

text \<open>The lists \<open>3, 1, 2, 1\<close> and \<open>2, 3, 1\<close> give trees of different shape and equal sets.\<close>

theorem equal_by_traversal_witness:
  "strict_weak_order ((<) :: int \<Rightarrow> int \<Rightarrow> bool) \<and>
   set [3, 1, 2, 1 :: int] = set [2, 3, 1] \<and>
   s_root (TreeSet_of_list (<) [3, 1, 2, 1 :: int]) \<noteq> s_root (TreeSet_of_list (<) [2, 3, 1 :: int]) \<and>
   equal_set (TreeSet_of_list (<) [3, 1, 2, 1 :: int]) (TreeSet_of_list (<) [2, 3, 1])"
  using equal_by_traversal [of _ _ "(<) :: int \<Rightarrow> int \<Rightarrow> bool" "[3, 1, 2, 1]" "[2, 3, 1]"] swo_less
  by (auto simp: TreeSet_of_list_def run_eval)

section \<open>Set algebra\<close>

text \<open>
  C8. For all sets \<open>a\<close> and \<open>b\<close> built by \<^verbatim>\<open>add\<close> and \<^verbatim>\<open>del\<close> calls under a strict weak
  order: \<^verbatim>\<open>a.plus(a) == a\<close>, \<^verbatim>\<open>a.intersect(a) == a\<close>, \<^verbatim>\<open>a.minus(a)\<close> is the empty set,
  \<^verbatim>\<open>a.plus(b).size()\<close> is at least the larger of the two sizes and
  \<^verbatim>\<open>a.intersect(b).size()\<close> at most the smaller.
\<close>

theorem set_algebra_identities:
  "strict_weak_order cmp \<Longrightarrow> a = run cmp ops_a \<Longrightarrow> b = run cmp ops_b \<Longrightarrow>
   equal_set (plus_set cmp a a) a \<and>
   equal_set (intersect cmp a a) a \<and>
   minus_set cmp a a = TreeSet_empty \<and>
   max (size_of a) (size_of b) \<le> size_of (plus_set cmp a b) \<and>
   size_of (intersect cmp a b) \<le> min (size_of a) (size_of b)"
proof -
  assume swo: "strict_weak_order cmp" and a: "a = run cmp ops_a" and b: "b = run cmp ops_b"
  from swo a have wa: "well_formed cmp a" by (simp add: well_formed_run)
  from swo b have wb: "well_formed cmp b" by (simp add: well_formed_run)
  have 1: "equal_set (plus_set cmp a a) a" using swo wa by (simp add: equal_iff plus_self)
  have 2: "equal_set (intersect cmp a a) a" using swo wa by (simp add: equal_iff intersect_self)
  have 3: "minus_set cmp a a = TreeSet_empty" using wa by (rule minus_self)
  have 4: "max (size_of a) (size_of b) \<le> size_of (plus_set cmp a b)" using wa wb by (rule plus_size)
  have 5: "size_of (intersect cmp a b) \<le> min (size_of a) (size_of b)"
    using wa wb by (rule intersect_size)
  from 1 2 3 4 5 show ?thesis by blast
qed

text \<open>The sets \<open>{1,2,3}\<close> and \<open>{1,2,4}\<close>: their union is \<open>{1,2,3,4}\<close>, their intersection
  \<open>{1,2}\<close> and their difference \<open>{3}\<close>.\<close>

theorem set_algebra_identities_witness:
  "strict_weak_order ((<) :: int \<Rightarrow> int \<Rightarrow> bool) \<and>
   elements (run (<) [Add (2::int), Add 1, Add 3]) = [1, 2, 3] \<and>
   elements (run (<) [Add (4::int), Add 2, Add 1, Add 5, Del 5]) = [1, 2, 4] \<and>
   equal_set (plus_set (<) (run (<) [Add (2::int), Add 1, Add 3]) (run (<) [Add (2::int), Add 1, Add 3]))
         (run (<) [Add (2::int), Add 1, Add 3]) \<and>
   equal_set (intersect (<) (run (<) [Add (2::int), Add 1, Add 3]) (run (<) [Add (2::int), Add 1, Add 3]))
         (run (<) [Add (2::int), Add 1, Add 3]) \<and>
   minus_set (<) (run (<) [Add (2::int), Add 1, Add 3]) (run (<) [Add (2::int), Add 1, Add 3])
     = TreeSet_empty \<and>
   elements (plus_set (<) (run (<) [Add (2::int), Add 1, Add 3])
                      (run (<) [Add (4::int), Add 2, Add 1, Add 5, Del 5])) = [1, 2, 3, 4] \<and>
   elements (intersect (<) (run (<) [Add (2::int), Add 1, Add 3])
                      (run (<) [Add (4::int), Add 2, Add 1, Add 5, Del 5])) = [1, 2] \<and>
   elements (minus_set (<) (run (<) [Add (2::int), Add 1, Add 3])
                      (run (<) [Add (4::int), Add 2, Add 1, Add 5, Del 5])) = [3]"
  using set_algebra_identities [of "(<) :: int \<Rightarrow> int \<Rightarrow> bool"
                   "run (<) [Add 2, Add 1, Add 3]" "[Add 2, Add 1, Add 3]"
                   "run (<) [Add 4, Add 2, Add 1, Add 5, Del 5]" "[Add 4, Add 2, Add 1, Add 5, Del 5]"]
        swo_less
  by (simp add: algebra_eval run_eval)

section \<open>Stream output\<close>

text \<open>
  C9. For every set, the text that \<^verbatim>\<open>operator<<\<close> appends to a stream is an opening
  bracket, the texts of the values in traversal order (the in-order sequence of the
  tree) joined by single commas, and a closing bracket, with nothing else. The empty
  set gives \<open>[]\<close>. The values 4, 1, 3, 2 inserted under \<^verbatim>\<open>std::less<int>\<close> give
  \<open>[1,2,3,4]\<close> and under \<^verbatim>\<open>std::greater<int>\<close> give \<open>[4,3,2,1]\<close>.
\<close>

theorem stream_output_format:
  "stream_out put os s = os @ ''['' @ join_commas (map put (elements s)) @ '']'' \<and>
   elements s = inorder (s_root s) \<and>
   stream_out put os TreeSet_empty = os @ ''[]'' \<and>
   stream_out put_int [] (TreeSet_of_list (<) [4, 1, 3, 2]) = ''[1,2,3,4]'' \<and>
   stream_out put_int [] (TreeSet_of_list (>) [4, 1, 3, 2]) = ''[4,3,2,1]''"
proof (intro conjI)
  show "stream_out put os s = os @ ''['' @ join_commas (map put (elements s)) @ '']''"
    by (rule stream_out_join)
  show "elements s = inorder (s_root s)" by (rule elements_inorder)
  show "stream_out put os TreeSet_empty = os @ ''[]''"
    by (simp add: stream_out_join elements_empty)
  show "stream_out put_int [] (TreeSet_of_list (<) [4, 1, 3, 2]) = ''[1,2,3,4]''"
    by (simp add: stream_out_join TreeSet_of_list_def run_eval put_eval)
  show "stream_out put_int [] (TreeSet_of_list (>) [4, 1, 3, 2]) = ''[4,3,2,1]''"
    by (simp add: stream_out_join TreeSet_of_list_def run_eval put_eval)
qed

section \<open>The sanity check\<close>

text \<open>
  C6. The check is meant to hold on every tree that the operations build. It does not:
  \<^verbatim>\<open>TreeSet<int> s; s.add(INT_MIN);\<close> builds the one-node tree, which is a search tree;
  no node is reported to \<^verbatim>\<open>cerr\<close>, since the report compares with \<^verbatim>\<open>_cmp(n->value, minval)\<close>;
  but the call for the null left child returns \<^verbatim>\<open>_cmp(INT_MIN, INT_MIN)\<close>, which is
  false, so \<^verbatim>\<open>sanity_check\<close> returns false and the assertion in \<^verbatim>\<open>add\<close> aborts the program.
\<close>

theorem sanity_check_rejects_INT_MIN:
  "add int_less INT_MIN TreeSet_empty = (True, \<lparr>s_root = Node INT_MIN Nullptr Nullptr, s_size = 1\<rparr>) \<and>
   search_tree int_less (Node INT_MIN Nullptr Nullptr) \<and>
   sanity_check_cerr int_less (Node INT_MIN Nullptr Nullptr) INT_MIN INT_MAX = [] \<and>
   sanity_check int_limits int_less (Node INT_MIN Nullptr Nullptr) = False \<and>
   add_debug int_limits int_less INT_MIN TreeSet_empty = Inl Assertion_failed"
  by (simp add: add_def add_debug_def size_of_def TreeSet_empty_def sanity_check_def int_limits_def
        int_less_def INT_MIN_def INT_MAX_def)

section \<open>Move construction and move assignment\<close>

text \<open>
  C5 (as amended). Move construction and move assignment hand the tree of the source
  to the destination: the destination gets the root pointer and the size of the source
  (move assignment sets a null root when the size of the source is 0), and a traversal
  of the destination yields what a traversal of the source yielded. The source is not
  written to: it keeps its root and its size, no node changes, and a traversal of the
  source yields what it did before. Both sets point to the same nodes afterwards: when
  the source is not empty and owns its nodes alone before the move, a later \<^verbatim>\<open>add\<close>
  through the source shows in the traversal of the destination as well, while the
  size of the destination stays what it was.
\<close>

theorem move_hands_over_tree:
  "this \<noteq> other \<Longrightarrow>
   sets (move_construct this other st) this
     = \<lparr>o_root = o_root (sets st other), o_size = o_size (sets st other)\<rparr> \<and>
   sets (move_construct this other st) other = sets st other \<and>
   nodes (move_construct this other st) = nodes st \<and>
   elements_st (move_construct this other st) this = elements_st st other \<and>
   elements_st (move_construct this other st) other = elements_st st other \<and>
   sets (move_assign this other st) this
     = \<lparr>o_root = (if 0 < o_size (sets st other) then o_root (sets st other) else None),
        o_size = o_size (sets st other)\<rparr> \<and>
   sets (move_assign this other st) other = sets st other \<and>
   nodes (move_assign this other st) = nodes st \<and>
   (0 < o_size (sets st other) \<longrightarrow>
      elements_st (move_assign this other st) this = elements_st st other) \<and>
   elements_st (move_assign this other st) other = elements_st st other \<and>
   (represents st other s t \<and> 0 < s_size s \<longrightarrow>
      (\<exists>st2. add_st cmp other v (move_construct this other st) = Some (fst (add cmp v s), st2) \<and>
             elements_st st2 other = Some (elements (snd (add cmp v s))) \<and>
             elements_st st2 this = Some (elements (snd (add cmp v s))) \<and>
             o_size (sets st2 this) = s_size s) \<and>
      (\<exists>st2. add_st cmp other v (move_assign this other st) = Some (fst (add cmp v s), st2) \<and>
             elements_st st2 other = Some (elements (snd (add cmp v s))) \<and>
             elements_st st2 this = Some (elements (snd (add cmp v s))) \<and>
             o_size (sets st2 this) = s_size s))"
proof -
  assume ne: "this \<noteq> other"
  have shared: "represents st other s t \<and> 0 < s_size s \<longrightarrow>
      (\<exists>st2. add_st cmp other v (move_construct this other st) = Some (fst (add cmp v s), st2) \<and>
             elements_st st2 other = Some (elements (snd (add cmp v s))) \<and>
             elements_st st2 this = Some (elements (snd (add cmp v s))) \<and>
             o_size (sets st2 this) = s_size s) \<and>
      (\<exists>st2. add_st cmp other v (move_assign this other st) = Some (fst (add cmp v s), st2) \<and>
             elements_st st2 other = Some (elements (snd (add cmp v s))) \<and>
             elements_st st2 this = Some (elements (snd (add cmp v s))) \<and>
             o_size (sets st2 this) = s_size s)"
  proof (intro impI conjI)
    assume a: "represents st other s t \<and> 0 < s_size s"
    then have rep: "represents st other s t" and nz: "s_size s \<noteq> 0" by simp_all
    from rep have root: "o_root (sets st other) = ptr t" and size: "o_size (sets st other) = s_size s"
      by (simp_all add: represents_def)
    have r1: "represents (move_construct this other st) other s t"
      using ne rep by (rule represents_move_construct)
    have a1: "o_root (sets (move_construct this other st) this) = ptr t"
      using root by (simp add: move_construct_def)
    have s1: "o_size (sets (move_construct this other st) this) = s_size s"
      using size by (simp add: move_construct_def)
    from add_through_alias [OF r1 ne nz a1, of cmp v] s1
    show "\<exists>st2. add_st cmp other v (move_construct this other st) = Some (fst (add cmp v s), st2) \<and>
             elements_st st2 other = Some (elements (snd (add cmp v s))) \<and>
             elements_st st2 this = Some (elements (snd (add cmp v s))) \<and>
             o_size (sets st2 this) = s_size s" by simp
    have r2: "represents (move_assign this other st) other s t"
      using rep by (rule represents_move_assign)
    have a2: "o_root (sets (move_assign this other st) this) = ptr t"
      using root size a ne by (simp add: move_assign_def)
    have s2: "o_size (sets (move_assign this other st) this) = s_size s"
      using size ne by (simp add: move_assign_def)
    from add_through_alias [OF r2 ne nz a2, of cmp v] s2
    show "\<exists>st2. add_st cmp other v (move_assign this other st) = Some (fst (add cmp v s), st2) \<and>
             elements_st st2 other = Some (elements (snd (add cmp v s))) \<and>
             elements_st st2 this = Some (elements (snd (add cmp v s))) \<and>
             o_size (sets st2 this) = s_size s" by simp
  qed
  from ne have "sets (move_construct this other st) this
     = \<lparr>o_root = o_root (sets st other), o_size = o_size (sets st other)\<rparr> \<and>
   sets (move_construct this other st) other = sets st other \<and>
   nodes (move_construct this other st) = nodes st \<and>
   elements_st (move_construct this other st) this = elements_st st other \<and>
   elements_st (move_construct this other st) other = elements_st st other \<and>
   sets (move_assign this other st) this
     = \<lparr>o_root = (if 0 < o_size (sets st other) then o_root (sets st other) else None),
        o_size = o_size (sets st other)\<rparr> \<and>
   sets (move_assign this other st) other = sets st other \<and>
   nodes (move_assign this other st) = nodes st \<and>
   (0 < o_size (sets st other) \<longrightarrow>
      elements_st (move_assign this other st) this = elements_st st other) \<and>
   elements_st (move_assign this other st) other = elements_st st other"
    by (simp add: move_construct_def move_assign_def elements_st_def)
  with shared show ?thesis by blast
qed

text \<open>\<^verbatim>\<open>TreeSet<int> a; a.add(1);\<close> and then \<^verbatim>\<open>TreeSet<int> b(std::move(a));\<close> or
  \<^verbatim>\<open>TreeSet<int> b; b = std::move(a);\<close>\<close>

theorem move_hands_over_tree_witness:
  "(1::nat) \<noteq> 0 \<and>
   0 < o_size (sets store_a1 0) \<and>
   represents store_a1 0 \<lparr>s_root = Node 1 Nullptr Nullptr, s_size = 1\<rparr> (Node (0, 1) Nullptr Nullptr) \<and>
   sets (move_construct 1 0 store_a1) 1 = \<lparr>o_root = Some 0, o_size = 1\<rparr> \<and>
   sets (move_assign 1 0 store_a1) 1 = \<lparr>o_root = Some 0, o_size = 1\<rparr> \<and>
   elements_st (move_construct 1 0 store_a1) 1 = Some [1] \<and>
   elements_st (move_assign 1 0 store_a1) 1 = Some [1] \<and>
   (\<exists>st2. add_st (<) 0 2 (move_construct 1 0 store_a1) = Some (True, st2) \<and>
          elements_st st2 1 = Some [1, 2] \<and> o_size (sets st2 1) = 1)"
  using move_hands_over_tree [of 1 0 store_a1 "\<lparr>s_root = Node 1 Nullptr Nullptr, s_size = 1\<rparr>"
                  "Node (0, 1) Nullptr Nullptr" "(<)" 2]
        represents_store_a1
  by (simp add: store_eval run_eval)

text \<open>
  C5 as stated fails: after either move the source \<open>a\<close> is not empty. It has size 1,
  its root is the node at address 0, which is also the root of \<open>b\<close>, and a traversal of
  \<open>a\<close> still yields the element.
\<close>

theorem move_leaves_source_counterexample:
  "sets (move_construct 1 0 store_a1) 0 = \<lparr>o_root = Some 0, o_size = 1\<rparr> \<and>
   o_root (sets (move_construct 1 0 store_a1) 1) = o_root (sets (move_construct 1 0 store_a1) 0) \<and>
   elements_st (move_construct 1 0 store_a1) 0 = Some [1] \<and>
   sets (move_assign 1 0 store_a1) 0 = \<lparr>o_root = Some 0, o_size = 1\<rparr> \<and>
   o_root (sets (move_assign 1 0 store_a1) 1) = o_root (sets (move_assign 1 0 store_a1) 0) \<and>
   elements_st (move_assign 1 0 store_a1) 0 = Some [1]"
  by (simp add: store_eval)

section \<open>Self-assignment\<close>

text \<open>
  C10. Copy-assigning a set to itself and move-assigning a set to itself return at once
  and change nothing: the store is the same afterwards, and with it the root, the size
  and the elements of the set.
\<close>

theorem self_assignment_no_op:
  "copy_assign dflt this this st = Some st \<and> move_assign this this st = st"
  by (simp add: copy_assign_def move_assign_def)


end
